(* ===== verification/Prelude.thy ===== *)
theory Prelude
  imports Main "HOL-Library.Word"
begin

text \<open>
  Shared vocabulary of the setundef development: the result type used for the
  fatal and command errors of the pass, the bind and repetition combinators that
  thread it, the 32-bit word type of the random generator, and the generic
  lemmas on lists and words that the component theories share.
\<close>

unbundle bit_operations_syntax

named_theorems sig_simps \<open>evaluation rules for signal-spec operations\<close>

type_synonym u32 = "32 word"

subsection \<open>Fallible computations as sums\<close>

text \<open>
  Every failing call of the pass (\<open>log_cmd_error\<close>, \<open>log_error\<close>,
  \<open>log_assert\<close>, \<open>log_abort\<close>) throws; a computation that may fail is a value
  of \<open>'e + 'a\<close>, \<open>Inl\<close> the error.
\<close>

definition sbind :: "'e + 'a \<Rightarrow> ('a \<Rightarrow> 'e + 'b) \<Rightarrow> 'e + 'b" where
  "sbind m f = (case m of Inl e \<Rightarrow> Inl e | Inr a \<Rightarrow> f a)"

text \<open>\<open>repeat_sum n g s\<close> calls the stateful, fallible generator \<open>g\<close> \<open>n\<close>
  times, collecting its outputs in call order.\<close>

fun repeat_sum :: "nat \<Rightarrow> ('s \<Rightarrow> 'e + ('a \<times> 's)) \<Rightarrow> 's \<Rightarrow> 'e + ('a list \<times> 's)" where
  "repeat_sum 0 g s = Inr ([], s)"
| "repeat_sum (Suc n) g s =
     sbind (g s) (\<lambda>(a, s'). sbind (repeat_sum n g s') (\<lambda>(as, s''). Inr (a # as, s'')))"

text \<open>Cutting a list into consecutive pieces of the given lengths.\<close>

fun split_lens :: "nat list \<Rightarrow> 'a list \<Rightarrow> 'a list list" where
  "split_lens [] xs = []"
| "split_lens (n # ns) xs = take n xs # split_lens ns (drop n xs)"

lemma sbind_Inl [simp]: "sbind (Inl e) f = Inl e"
  by (simp add: sbind_def)

lemma sbind_Inr [simp]: "sbind (Inr a) f = f a"
  by (simp add: sbind_def)

lemma sbind_eq_Inr: "sbind m f = Inr b \<longleftrightarrow> (\<exists>a. m = Inr a \<and> f a = Inr b)"
  by (cases m) auto

lemma sbind_eq_Inl: "sbind m f = Inl e \<longleftrightarrow> m = Inl e \<or> (\<exists>a. m = Inr a \<and> f a = Inl e)"
  by (cases m) auto

lemma sbind_Inr_pairE:
  assumes "sbind m f = Inr b"
  obtains x y where "m = Inr (x, y)" and "f (x, y) = Inr b"
  using assms by (cases m) auto

lemma sbind_assoc: "sbind (sbind m f) g = sbind m (\<lambda>a. sbind (f a) g)"
  by (cases m) auto

lemma repeat_sum_length:
  "repeat_sum n g s = Inr (as, s') \<Longrightarrow> length as = n"
  by (induction n arbitrary: s as) (auto simp: sbind_eq_Inr split: prod.splits)

lemma repeat_sum_add:
  "repeat_sum (a + b) g s =
     sbind (repeat_sum a g s) (\<lambda>(xs, s1). sbind (repeat_sum b g s1) (\<lambda>(ys, s2). Inr (xs @ ys, s2)))"
  by (induction a arbitrary: s) (auto simp: sbind_def split: sum.splits prod.splits)

lemma repeat_sum_set:
  assumes "repeat_sum n g s = Inr (as, s')"
    and "\<And>s a s1. g s = Inr (a, s1) \<Longrightarrow> P a"
  shows "\<forall>a\<in>set as. P a"
  using assms(1)
  by (induction n arbitrary: s as) (auto simp: sbind_eq_Inr split: prod.splits dest: assms(2))

subsection \<open>Lists\<close>

text \<open>Splicing a list \<open>ys\<close> over \<open>xs\<close> at position \<open>i\<close>.\<close>

lemma length_splice [simp]:
  "i + length ys \<le> length xs \<Longrightarrow> length (take i xs @ ys @ drop (i + length ys) xs) = length xs"
  by simp

lemma nth_splice:
  assumes "i + length ys \<le> length xs" and "j < length xs"
  shows "(take i xs @ ys @ drop (i + length ys) xs) ! j =
         (if j < i then xs ! j else if j < i + length ys then ys ! (j - i) else xs ! j)"
  using assms by (auto simp: nth_append min_def)

lemma nth_list_update_if: "xs[i := x] ! j = (if i = j \<and> i < length xs then x else xs ! j)"
  by (cases "i < length xs") (auto simp: nth_list_update list_update_beyond)

lemma fold_pred: "(\<And>x s. P s \<Longrightarrow> P (f x s)) \<Longrightarrow> P s \<Longrightarrow> P (fold f xs s)"
  by (induction xs arbitrary: s) simp_all

lemma fold_set_union:
  assumes "\<And>x p. x \<in> set xs \<Longrightarrow> set (g x p) = set p \<union> S x"
  shows "set (fold g xs p) = set p \<union> (\<Union>x\<in>set xs. S x)"
  using assms by (induction xs arbitrary: p) auto

lemma fold_set_minus:
  assumes "\<And>x p. x \<in> set xs \<Longrightarrow> set (g x p) = set p - S x"
  shows "set (fold g xs p) = set p - (\<Union>x\<in>set xs. S x)"
  using assms by (induction xs arbitrary: p) auto

lemma fold_mono_set:
  assumes "\<And>y s. set (h s) \<subseteq> set (h (f y s))"
  shows "set (h s) \<subseteq> set (h (fold f xs s))"
proof (induction xs arbitrary: s)
  case Nil
  then show ?case by simp
next
  case (Cons y ys)
  show ?case using assms [of s y] Cons.IH [of "f y s"] by simp
qed

lemma fold_mono_mem:
  assumes "x \<in> set xs" and "\<And>s. a \<in> set (h (f x s))" and "\<And>y s. set (h s) \<subseteq> set (h (f y s))"
  shows "a \<in> set (h (fold f xs s))"
  using assms(1)
proof (induction xs arbitrary: s)
  case Nil
  then show ?case by simp
next
  case (Cons y ys)
  show ?case
  proof (cases "x \<in> set ys")
    case True
    then show ?thesis using Cons.IH by simp
  next
    case False
    then have "y = x" using Cons.prems by simp
    then show ?thesis using assms(2) fold_mono_set [of h f, OF assms(3)] by auto
  qed
qed

lemma split_lens_replicate:
  "split_lens (map length cs) (replicate (length (concat cs)) x) = map (\<lambda>c. replicate (length c) x) cs"
  by (induction cs) (simp_all add: replicate_add)

lemma zip_map_same: "zip xs (map f xs) = map (\<lambda>x. (x, f x)) xs"
  by (induction xs) simp_all

lemma distinct_concat_map_upt:
  assumes "\<And>i. i < n \<Longrightarrow> distinct (f i)"
    and "\<And>i j x. i < n \<Longrightarrow> j < n \<Longrightarrow> x \<in> set (f i) \<Longrightarrow> x \<in> set (f j) \<Longrightarrow> i = j"
  shows "distinct (concat (map f [0..<n]))"
  using assms
proof (induction n)
  case 0
  then show ?case by simp
next
  case (Suc n)
  have IH: "distinct (concat (map f [0..<n]))"
    using Suc.prems by (intro Suc.IH) auto
  have disj: "set (concat (map f [0..<n])) \<inter> set (f n) = {}"
  proof (rule ccontr)
    assume "set (concat (map f [0..<n])) \<inter> set (f n) \<noteq> {}"
    then obtain i x where "i < n" "x \<in> set (f i)" "x \<in> set (f n)" by auto
    with Suc.prems(2) [of i n x] show False by simp
  qed
  show ?case using IH disj Suc.prems(1) by simp
qed

subsection \<open>Words: xor with a shifted copy\<close>

lemma xor_eq_zero: "(x::'a::len word) XOR y = 0 \<longleftrightarrow> x = y"
  by (metis bit.xor_self bit.xor_left_self)

lemma push_bit_fix_iter:
  assumes "push_bit k (x::'a::len word) = x"
  shows "push_bit (k * n) x = x"
proof (induction n)
  case 0
  then show ?case by simp
next
  case (Suc n)
  have "push_bit (k * Suc n) x = push_bit k (push_bit (k * n) x)"
    by (simp add: add.commute)
  also have "\<dots> = x" using Suc assms by simp
  finally show ?case .
qed

lemma drop_bit_fix_iter:
  assumes "drop_bit k (x::'a::len word) = x"
  shows "drop_bit (k * n) x = x"
proof (induction n)
  case 0
  then show ?case by simp
next
  case (Suc n)
  have "drop_bit (k * Suc n) x = drop_bit k (drop_bit (k * n) x)"
    by (simp add: add.commute)
  also have "\<dots> = x" using Suc assms by simp
  finally show ?case .
qed

text \<open>A word that is not zero stays non-zero when a shifted copy of it is
  xored in, for either shift direction: a fixed point of a non-trivial shift
  is zero, since iterating the shift past the word length clears every bit.\<close>

lemma xor_push_bit_nonzero:
  assumes "(x::'a::len word) \<noteq> 0" and "0 < k"
  shows "x XOR push_bit k x \<noteq> 0"
proof
  assume "x XOR push_bit k x = 0"
  then have "push_bit k x = x" by (simp add: xor_eq_zero)
  then have "push_bit (k * LENGTH('a)) x = x" by (rule push_bit_fix_iter)
  moreover have "LENGTH('a) \<le> k * LENGTH('a)" using assms(2) by simp
  ultimately show False using assms(1) by simp
qed

lemma xor_drop_bit_nonzero:
  assumes "(x::'a::len word) \<noteq> 0" and "0 < k"
  shows "x XOR drop_bit k x \<noteq> 0"
proof
  assume "x XOR drop_bit k x = 0"
  then have "drop_bit k x = x" by (simp add: xor_eq_zero)
  then have "drop_bit (k * LENGTH('a)) x = x" by (rule drop_bit_fix_iter)
  moreover have "LENGTH('a) \<le> k * LENGTH('a)" using assms(2) by simp
  ultimately show False using assms(1) by simp
qed


text \<open>Prefixes written as \<open>take (length xs) ys = xs\<close>, the form in
  which a module keeps its old cells and connections.\<close>

lemma take_prefix_le: "take (length xs) ys = xs \<Longrightarrow> length xs \<le> length ys"
  by (metis length_take min.bounded_iff order_refl)

lemma take_prefix_trans:
  assumes "take (length xs) ys = xs" and "take (length ys) zs = ys"
  shows "take (length xs) zs = xs"
proof -
  have "min (length xs) (length ys) = length xs" using take_prefix_le [OF assms(1)] by simp
  then have "take (length xs) zs = take (length xs) (take (length ys) zs)" by simp
  then show ?thesis using assms by simp
qed

lemma take_prefix_nth:
  assumes "take (length xs) ys = xs" and "i < length xs"
  shows "ys ! i = xs ! i \<and> i < length ys"
proof
  have "xs ! i = take (length xs) ys ! i" using assms(1) by simp
  then show "ys ! i = xs ! i" using assms(2) by simp
  show "i < length ys" using take_prefix_le [OF assms(1)] assms(2) by simp
qed

lemma split_lens_lengths:
  "length xs = length (concat cs) \<Longrightarrow> map length (split_lens (map length cs) xs) = map length cs"
  by (induction cs arbitrary: xs) simp_all

lemma zip_fst_lengths:
  assumes "map length ds = map length cs"
  shows "map fst (zip cs ds) = cs \<and> (\<forall>(c, d)\<in>set (zip cs ds). length d = length c)"
proof -
  have l: "length ds = length cs" using map_eq_imp_length_eq [OF assms] .
  have "\<forall>(c, d)\<in>set (zip cs ds). length d = length c"
  proof
    fix p assume "p \<in> set (zip cs ds)"
    then obtain i where i: "i < length cs" "p = (cs ! i, ds ! i)" using l by (auto simp: set_zip)
    have "map length ds ! i = map length cs ! i" using assms by simp
    then show "case p of (c, d) \<Rightarrow> length d = length c" using i l by simp
  qed
  then show ?thesis using l by simp
qed

end
