(* ===== verification/RTLIL.thy ===== *)
theory RTLIL
  imports Prelude
begin

text \<open>
  The part of the RTLIL netlist kernel (\<open>kernel/rtlil.h\<close>, \<open>kernel/rtlil.cc\<close>)
  that the setundef pass reads and writes: logic states, signal bits and signal
  specs, wires, cells, modules, the fresh-name counter \<open>autoidx\<close>, the module
  operations the pass calls (\<open>connect\<close>, \<open>Anyseq\<close>, \<open>Anyconst\<close>,
  \<open>SigSpec::replace\<close>) and \<open>Module::rewrite_sigspecs\<close>, the traversal that hands
  every signal spec of a module to a functor. The kernel is not part of the
  sources of this repository; these definitions follow its documented contract.
\<close>

subsection \<open>Logic states and signal bits\<close>

datatype State = S0 | S1 | Sx | Sz | Sa | Sm

text \<open>\<open>RTLIL::State\<close> is an enum with \<open>S0 = 0\<close> up to \<open>Sm = 5\<close>; the pass
  compares states by these numeric values.\<close>

fun state_code :: "State \<Rightarrow> nat" where
  "state_code S0 = 0"
| "state_code S1 = 1"
| "state_code Sx = 2"
| "state_code Sz = 3"
| "state_code Sa = 4"
| "state_code Sm = 5"

instantiation State :: linorder
begin

definition less_eq_State :: "State \<Rightarrow> State \<Rightarrow> bool" where
  "less_eq_State a b \<longleftrightarrow> state_code a \<le> state_code b"

definition less_State :: "State \<Rightarrow> State \<Rightarrow> bool" where
  "less_State a b \<longleftrightarrow> state_code a < state_code b"

instance
proof
  fix x y z :: State
  show "x < y \<longleftrightarrow> x \<le> y \<and> \<not> y \<le> x" by (auto simp: less_eq_State_def less_State_def)
  show "x \<le> x" by (simp add: less_eq_State_def)
  show "x \<le> y \<Longrightarrow> y \<le> z \<Longrightarrow> x \<le> z" by (simp add: less_eq_State_def)
  show "x \<le> y \<Longrightarrow> y \<le> x \<Longrightarrow> x = y" by (cases x; cases y) (simp_all add: less_eq_State_def)
  show "x \<le> y \<or> y \<le> x" by (auto simp: less_eq_State_def)
qed

end

text \<open>A \<open>SigBit\<close> is either a constant state (\<open>wire == NULL\<close>, \<open>data\<close>) or
  bit \<open>offset\<close> of a wire, named by the wire's unique name in its module.\<close>

datatype SigBit = BConst State | BWire string nat

type_synonym SigSpec = "SigBit list"

subsection \<open>Wires, cells, modules\<close>

record Wire =
  wire_name :: string
  wire_width :: nat
  port_input :: bool
  port_output :: bool
  wire_init :: "State list option"

record Cell =
  cell_name :: string
  cell_type :: string
  cell_params :: "(string \<times> nat) list"
  cell_conns :: "(string \<times> SigSpec) list"

text \<open>A process (\<open>RTLIL::Process\<close>) matters to the pass only through the
  signal specs its \<open>rewrite_sigspecs\<close> visits; it is the list of them.\<close>

record Module =
  mod_name :: string
  mod_wires :: "Wire list"
  mod_cells :: "Cell list"
  mod_procs :: "SigSpec list list"
  mod_conns :: "(SigSpec \<times> SigSpec) list"

text \<open>Public identifiers start with a backslash (\<open>"\\init"\<close>), generated
  ones with a dollar sign.\<close>

definition pub_id :: "string \<Rightarrow> string" where
  "pub_id s = CHR 0x5C # s"

definition wire_sig :: "Wire \<Rightarrow> SigSpec" where
  "wire_sig w = map (BWire (wire_name w)) [0..<wire_width w]"

text \<open>\<open>SigSpec::replace(offset, with)\<close> overwrites the bits from \<open>offset\<close>
  on; its \<open>log_assert(offset + with.width <= width)\<close> is a precondition that
  every caller of the pass establishes (\<open>length_splice\<close>).\<close>

definition sig_replace :: "nat \<Rightarrow> SigSpec \<Rightarrow> SigSpec \<Rightarrow> SigSpec" where
  "sig_replace offset sig w = take offset sig @ w @ drop (offset + length w) sig"

subsection \<open>Fresh names and free-variable sources\<close>

fun string_of_nat :: "nat \<Rightarrow> string" where
  "string_of_nat n =
     (if n < 10 then [char_of (48 + n)]
      else string_of_nat (n div 10) @ [char_of (48 + n mod 10)])"

text \<open>\<open>NEW_ID\<close> expands to \<open>new_id(__FILE__, __LINE__, __FUNCTION__)\<close>,
  which formats \<open>"$auto$file:line:func$N"\<close> with the global counter
  \<open>autoidx\<close> and increments it. The state threaded through the pass is the
  counter with the module being changed.\<close>

type_synonym mstate = "nat \<times> Module"

definition new_id :: "string \<Rightarrow> nat \<Rightarrow> string" where
  "new_id site idx = ''$auto$'' @ site @ ''$'' @ string_of_nat idx"

text \<open>\<open>module->Anyseq(NEW_ID, width)\<close> and \<open>module->Anyconst(NEW_ID, width)\<close>:
  the cell's name is drawn at the call site (\<open>site\<close>), then \<open>addWire(NEW_ID,
  width)\<close> draws the wire's name, \<open>addCell(name, type)\<close> adds the cell with
  parameter \<open>WIDTH\<close> and its port \<open>Y\<close> connected to the new wire, and the
  wire's signal is returned.\<close>

definition free_wire :: "nat \<Rightarrow> nat \<Rightarrow> Wire" where
  "free_wire idx width =
     \<lparr>wire_name = new_id ''rtlil.cc'' (Suc idx), wire_width = width,
      port_input = False, port_output = False, wire_init = None\<rparr>"

definition free_cell :: "string \<Rightarrow> string \<Rightarrow> nat \<Rightarrow> nat \<Rightarrow> Cell" where
  "free_cell ty site idx width =
     \<lparr>cell_name = new_id site idx, cell_type = ty,
      cell_params = [(pub_id ''WIDTH'', width)],
      cell_conns = [(pub_id ''Y'', wire_sig (free_wire idx width))]\<rparr>"

definition add_free_source :: "string \<Rightarrow> string \<Rightarrow> nat \<Rightarrow> mstate \<Rightarrow> SigSpec \<times> mstate" where
  "add_free_source ty site width st =
     (let idx = fst st; m = snd st
      in (wire_sig (free_wire idx width), (Suc (Suc idx),
          m\<lparr>mod_wires := mod_wires m @ [free_wire idx width],
            mod_cells := mod_cells m @ [free_cell ty site idx width]\<rparr>)))"

text \<open>\<open>Module::connect(SigSig)\<close> appends a connection.\<close>

definition module_connect :: "Module \<Rightarrow> SigSpec \<times> SigSpec \<Rightarrow> Module" where
  "module_connect m c = m\<lparr>mod_conns := mod_conns m @ [c]\<rparr>"

subsection \<open>Signal-spec locations and \<open>rewrite_sigspecs\<close>\<close>

text \<open>
  \<open>Module::rewrite_sigspecs(functor)\<close> calls the functor on a reference to every
  signal spec of the module: the connections of each cell in turn, the signal specs
  of each process, then both sides of each module connection. A location names one
  such reference; the functor of the pass keeps some of them (\<open>siglist\<close> of
  pointers) to come back to later. The lists stand for the containers' iteration
  order.
\<close>

datatype SigLoc = LocCell nat nat | LocProc nat nat | LocConnL nat | LocConnR nat

definition sig_locs :: "Module \<Rightarrow> SigLoc list" where
  "sig_locs m =
     concat (map (\<lambda>ci. map (LocCell ci) [0..<length (cell_conns (mod_cells m ! ci))])
                 [0..<length (mod_cells m)])
   @ concat (map (\<lambda>pi. map (LocProc pi) [0..<length (mod_procs m ! pi)])
                 [0..<length (mod_procs m)])
   @ concat (map (\<lambda>i. [LocConnL i, LocConnR i]) [0..<length (mod_conns m)])"

fun loc_valid :: "Module \<Rightarrow> SigLoc \<Rightarrow> bool" where
  "loc_valid m (LocCell ci pi) =
     (ci < length (mod_cells m) \<and> pi < length (cell_conns (mod_cells m ! ci)))"
| "loc_valid m (LocProc pi si) = (pi < length (mod_procs m) \<and> si < length (mod_procs m ! pi))"
| "loc_valid m (LocConnL i) = (i < length (mod_conns m))"
| "loc_valid m (LocConnR i) = (i < length (mod_conns m))"

fun sig_at :: "Module \<Rightarrow> SigLoc \<Rightarrow> SigSpec" where
  "sig_at m (LocCell ci pi) = snd (cell_conns (mod_cells m ! ci) ! pi)"
| "sig_at m (LocProc pi si) = mod_procs m ! pi ! si"
| "sig_at m (LocConnL i) = fst (mod_conns m ! i)"
| "sig_at m (LocConnR i) = snd (mod_conns m ! i)"

fun sig_put :: "Module \<Rightarrow> SigLoc \<Rightarrow> SigSpec \<Rightarrow> Module" where
  "sig_put m (LocCell ci pi) s =
     m\<lparr>mod_cells := (mod_cells m)[ci :=
        (mod_cells m ! ci)\<lparr>cell_conns := (cell_conns (mod_cells m ! ci))[pi :=
           (fst (cell_conns (mod_cells m ! ci) ! pi), s)]\<rparr>]\<rparr>"
| "sig_put m (LocProc pi si) s = m\<lparr>mod_procs := (mod_procs m)[pi := (mod_procs m ! pi)[si := s]]\<rparr>"
| "sig_put m (LocConnL i) s = m\<lparr>mod_conns := (mod_conns m)[i := (s, snd (mod_conns m ! i))]\<rparr>"
| "sig_put m (LocConnR i) s = m\<lparr>mod_conns := (mod_conns m)[i := (fst (mod_conns m ! i), s)]\<rparr>"

text \<open>The functor gets its own state, the location and the signal spec, and
  returns the rewritten spec or fails; a failure ends the traversal.\<close>

fun rewrite_locs ::
  "('s \<Rightarrow> SigLoc \<Rightarrow> SigSpec \<Rightarrow> 'e + ('s \<times> SigSpec)) \<Rightarrow> SigLoc list \<Rightarrow> 's \<Rightarrow> Module
   \<Rightarrow> 'e + ('s \<times> Module)" where
  "rewrite_locs f [] s m = Inr (s, m)"
| "rewrite_locs f (l # ls) s m =
     sbind (f s l (sig_at m l)) (\<lambda>(s', sig'). rewrite_locs f ls s' (sig_put m l sig'))"

definition rewrite_sigspecs ::
  "('s \<Rightarrow> SigLoc \<Rightarrow> SigSpec \<Rightarrow> 'e + ('s \<times> SigSpec)) \<Rightarrow> 's \<Rightarrow> Module \<Rightarrow> 'e + ('s \<times> Module)" where
  "rewrite_sigspecs f s m = rewrite_locs f (sig_locs m) s m"

subsection \<open>Lemmas: states\<close>

lemma S1_less_iff [simp]: "S1 < s \<longleftrightarrow> s \<notin> {S0, S1}"
  by (cases s) (simp_all add: less_State_def)

subsection \<open>Lemmas: locations\<close>

lemma set_sig_locs [simp]: "l \<in> set (sig_locs m) \<longleftrightarrow> loc_valid m l"
  by (cases l) (force simp: sig_locs_def)+

lemma distinct_sig_locs: "distinct (sig_locs m)"
  unfolding sig_locs_def by (auto simp: distinct_map inj_on_def intro!: distinct_concat_map_upt)

lemma sig_put_fields [simp]:
  "mod_name (sig_put m l s) = mod_name m"
  "mod_wires (sig_put m l s) = mod_wires m"
  by (cases l; simp)+

lemma loc_valid_put [simp]: "loc_valid (sig_put m l s) l' = loc_valid m l'"
  by (cases l; cases l') (auto simp: nth_list_update_if split: if_splits)

lemma sig_locs_put [simp]: "sig_locs (sig_put m l s) = sig_locs m"
  by (cases l) (auto simp: sig_locs_def nth_list_update_if intro!: arg_cong[where f = concat] map_cong)

lemma length_conns_put [simp]: "length (mod_conns (sig_put m l s)) = length (mod_conns m)"
  by (cases l) simp_all

lemma sig_at_put:
  "loc_valid m l \<Longrightarrow> loc_valid m l' \<Longrightarrow>
   sig_at (sig_put m l s) l' = (if l' = l then s else sig_at m l')"
  by (cases l; cases l') (auto simp: nth_list_update_if split: if_splits)

lemma put_at_same [simp]: "sig_put m l (sig_at m l) = m"
  by (cases l) simp_all

subsection \<open>Lemmas: the traversal\<close>

lemma rewrite_locs_sig_locs:
  "rewrite_locs f ls s m = Inr (s', m') \<Longrightarrow> sig_locs m' = sig_locs m"
  by (induction ls arbitrary: s m) (auto simp: sbind_eq_Inr split: prod.splits)

lemma rewrite_locs_valid:
  "rewrite_locs f ls s m = Inr (s', m') \<Longrightarrow> loc_valid m' l = loc_valid m l"
  by (metis rewrite_locs_sig_locs set_sig_locs)

lemma rewrite_locs_wires:
  "rewrite_locs f ls s m = Inr (s', m') \<Longrightarrow> mod_wires m' = mod_wires m \<and> mod_name m' = mod_name m"
  by (induction ls arbitrary: s m) (auto simp: sbind_eq_Inr split: prod.splits)

text \<open>Locations the traversal does not visit keep their signal spec.\<close>

lemma rewrite_locs_frame:
  assumes "rewrite_locs f ls s m = Inr (s', m')" and "l \<notin> set ls"
    and "loc_valid m l" and "\<forall>l'\<in>set ls. loc_valid m l'"
  shows "sig_at m' l = sig_at m l"
  using assms
  by (induction ls arbitrary: s m) (auto simp: sbind_eq_Inr sig_at_put split: prod.splits)

text \<open>Each visited location ends up holding what the functor returned for it,
  read before the visit: a relation \<open>Q\<close> that every call of the functor
  establishes between its input and output, from a functor state satisfying
  \<open>I\<close> that it keeps, holds between the spec before and after the traversal at
  every visited location.\<close>

lemma rewrite_locs_post:
  assumes "rewrite_locs f ls s m = Inr (s', m')" and "distinct ls"
    and "\<forall>l\<in>set ls. loc_valid m l" and "I s"
    and "\<And>s l x s1 y. I s \<Longrightarrow> f s l x = Inr (s1, y) \<Longrightarrow> I s1 \<and> Q x y"
  shows "\<forall>l\<in>set ls. Q (sig_at m l) (sig_at m' l)"
  using assms(1-4)
proof (induction ls arbitrary: s m)
  case Nil
  then show ?case by simp
next
  case (Cons l ls)
  from Cons.prems(1) obtain s1 y where f: "f s l (sig_at m l) = Inr (s1, y)"
    and rest: "rewrite_locs f ls s1 (sig_put m l y) = Inr (s', m')"
    by (auto simp: sbind_eq_Inr split: prod.splits)
  have vl: "loc_valid m l" using Cons.prems(3) by simp
  have step: "I s1 \<and> Q (sig_at m l) y" using assms(5) [OF Cons.prems(4) f] .
  have IH: "\<forall>l'\<in>set ls. Q (sig_at (sig_put m l y) l') (sig_at m' l')"
    using Cons.IH [OF rest] Cons.prems(2,3) step by simp
  have "sig_at m' l = y"
    using rewrite_locs_frame [OF rest] Cons.prems(2,3) vl by (simp add: sig_at_put)
  then have "Q (sig_at m l) (sig_at m' l)" using step by simp
  moreover have "\<forall>l'\<in>set ls. sig_at (sig_put m l y) l' = sig_at m l'"
    using Cons.prems(2,3) vl by (auto simp: sig_at_put)
  ultimately show ?case using IH by simp
qed

text \<open>An invariant of the functor state that every call keeps holds at the end
  of the traversal.\<close>

lemma rewrite_locs_inv:
  assumes "rewrite_locs f ls s m = Inr (s', m')" and "I s"
    and "\<And>s l x s1 y. I s \<Longrightarrow> f s l x = Inr (s1, y) \<Longrightarrow> I s1"
  shows "I s'"
  using assms(1,2)
  by (induction ls arbitrary: s m) (auto simp: sbind_eq_Inr split: prod.splits dest: assms(3))

text \<open>The traversal returns when every call of the functor does, from a state
  satisfying an invariant that every call keeps.\<close>

lemma rewrite_locs_ok:
  assumes "I s" and "\<And>s l x. I s \<Longrightarrow> \<exists>s1 y. f s l x = Inr (s1, y) \<and> I s1"
  shows "\<exists>s' m'. rewrite_locs f ls s m = Inr (s', m') \<and> I s'"
  using assms(1)
proof (induction ls arbitrary: s m)
  case Nil
  then show ?case by simp
next
  case (Cons l ls)
  obtain s1 y where "f s l (sig_at m l) = Inr (s1, y)" and "I s1" using assms(2) [OF Cons.prems] by blast
  then show ?case using Cons.IH by simp
qed

text \<open>The same for the whole module.\<close>

lemma rewrite_sigspecs_post:
  assumes "rewrite_sigspecs f s m = Inr (s', m')" and "I s"
    and "\<And>s l x s1 y. I s \<Longrightarrow> f s l x = Inr (s1, y) \<Longrightarrow> I s1 \<and> Q x y"
    and "loc_valid m l"
  shows "Q (sig_at m l) (sig_at m' l)"
proof -
  have r: "rewrite_locs f (sig_locs m) s m = Inr (s', m')"
    using assms(1) by (simp add: rewrite_sigspecs_def)
  have "\<forall>l\<in>set (sig_locs m). Q (sig_at m l) (sig_at m' l)"
    by (rule rewrite_locs_post [where I = I and Q = Q, OF r distinct_sig_locs _ assms(2) assms(3)]) simp
  then show ?thesis using assms(4) by simp
qed

lemma rewrite_sigspecs_shape:
  "rewrite_sigspecs f s m = Inr (s', m') \<Longrightarrow>
   sig_locs m' = sig_locs m \<and> mod_wires m' = mod_wires m \<and> mod_name m' = mod_name m"
  unfolding rewrite_sigspecs_def by (metis rewrite_locs_sig_locs rewrite_locs_wires)

subsection \<open>Lemmas: free-variable sources\<close>

lemma length_wire_sig [simp]: "length (wire_sig w) = wire_width w"
  by (simp add: wire_sig_def)

lemma add_free_source_fst [simp]:
  "length (fst (add_free_source ty site width st)) = width"
  by (simp add: add_free_source_def Let_def free_wire_def)

lemma add_free_source_idx [simp]:
  "fst (snd (add_free_source ty site width st)) = Suc (Suc (fst st))"
  by (simp add: add_free_source_def Let_def)

lemma add_free_source_bits:
  "b \<in> set (fst (add_free_source ty site width st)) \<Longrightarrow> \<exists>n i. b = BWire n i"
  by (auto simp: add_free_source_def Let_def wire_sig_def)

text \<open>Adding a source appends a cell and a wire and keeps every location that
  was valid, with its signal spec.\<close>

lemma add_free_source_loc:
  assumes "loc_valid (snd st) l"
  shows "loc_valid (snd (snd (add_free_source ty site width st))) l"
    and "sig_at (snd (snd (add_free_source ty site width st))) l = sig_at (snd st) l"
  using assms by (cases l; simp add: add_free_source_def Let_def nth_append)+

lemma add_free_source_module:
  "snd (snd (add_free_source ty site width (idx, m))) =
     m\<lparr>mod_wires := mod_wires m @ [free_wire idx width],
       mod_cells := mod_cells m @ [free_cell ty site idx width]\<rparr>"
  by (simp add: add_free_source_def)

end
