(* ===== verification/BitGen.thy ===== *)
theory BitGen
  imports RTLIL
begin

text \<open>
  The bit generator of \<open>SetundefWorker\<close> (\<open>src/passes/cmds/setundef.cc\<close>):
  the six modes, the worker's state (mode, 32-bit xorshift state, the list of
  recorded signal-spec locations), and \<open>next_bit()\<close>, which returns one
  replacement state per call. The faults the pass can raise are declared here,
  since \<open>next_bit()\<close> is the first operation that raises one.
\<close>

subsection \<open>Modes, faults and the worker\<close>

datatype Mode = MODE_ZERO | MODE_ONE | MODE_UNDEF | MODE_RANDOM | MODE_ANYSEQ | MODE_ANYCONST

text \<open>\<open>log_cmd_error\<close> (a usage error), \<open>log_error\<close> (a fatal error),
  \<open>log_assert\<close> (an internal invariant), \<open>log_abort\<close> (unreachable code), and
  the \<open>std::out_of_range\<close> that \<open>dict::at\<close> throws for a missing key.\<close>

datatype Fault = CmdError string | FatalError string | AssertFail | Abort | OutOfRange

record Worker =
  next_bit_mode :: Mode
  next_bit_state :: u32
  siglist :: "SigLoc list"

definition free_mode :: "Mode \<Rightarrow> bool" where
  "free_mode md \<longleftrightarrow> md = MODE_ANYSEQ \<or> md = MODE_ANYCONST"

subsection \<open>next_bit\<close>

text \<open>The xorshift32 update on the unsigned 32-bit state: \<open><<\<close> is
  \<open>push_bit\<close>, \<open>>>\<close> on \<open>uint32_t\<close> is \<open>drop_bit\<close>.\<close>

definition xorshift32 :: "u32 \<Rightarrow> u32" where
  "xorshift32 s =
     (let s1 = s XOR push_bit 13 s;
          s2 = s1 XOR drop_bit 17 s1
      in s2 XOR push_bit 5 s2)"

text \<open>\<open>((s >> (s & 15)) & 16) ? S0 : S1\<close>: bit \<open>4 + (s mod 16)\<close> of the
  new state, set meaning \<open>S0\<close>.\<close>

definition random_bit :: "u32 \<Rightarrow> State" where
  "random_bit s = (if drop_bit (unat (s AND 15)) s AND 16 \<noteq> 0 then S0 else S1)"

definition next_bit :: "Worker \<Rightarrow> Fault + (State \<times> Worker)" where
  "next_bit w =
     (case next_bit_mode w of
        MODE_ZERO \<Rightarrow> Inr (S0, w)
      | MODE_ONE \<Rightarrow> Inr (S1, w)
      | MODE_UNDEF \<Rightarrow> Inr (Sx, w)
      | MODE_RANDOM \<Rightarrow>
          (let s = xorshift32 (next_bit_state w)
           in if s = 0 then Inl AssertFail
              else Inr (random_bit s, w\<lparr>next_bit_state := s\<rparr>))
      | _ \<Rightarrow> Inl Abort)"

text \<open>\<open>n\<close> calls of \<open>next_bit()\<close> in a row.\<close>

definition next_bits :: "nat \<Rightarrow> Worker \<Rightarrow> Fault + (State list \<times> Worker)" where
  "next_bits n w = repeat_sum n next_bit w"

subsection \<open>Abstract specification of the random stream\<close>

text \<open>The \<open>i\<close>-th bit drawn from state \<open>s\<close> is read from the state after
  \<open>i + 1\<close> xorshift steps.\<close>

definition random_stream :: "u32 \<Rightarrow> nat \<Rightarrow> State list" where
  "random_stream s n = map (\<lambda>i. random_bit ((xorshift32 ^^ Suc i) s)) [0..<n]"

text \<open>A worker whose \<open>next_bit()\<close> cannot fail: a constant mode, or the
  random mode from a non-zero state.\<close>

definition gen_ok :: "Worker \<Rightarrow> bool" where
  "gen_ok w \<longleftrightarrow> next_bit_mode w \<in> {MODE_ZERO, MODE_ONE, MODE_UNDEF}
                 \<or> (next_bit_mode w = MODE_RANDOM \<and> next_bit_state w \<noteq> 0)"

subsection \<open>Lemmas\<close>

lemma xorshift32_1: "xorshift32 1 = 270369"
  by (simp add: xorshift32_def Let_def)

lemma random_bit_cases: "random_bit s \<in> {S0, S1}"
  by (simp add: random_bit_def)

lemma xorshift32_nonzero: "s \<noteq> 0 \<Longrightarrow> xorshift32 s \<noteq> 0"
  unfolding xorshift32_def Let_def
  by (intro xor_push_bit_nonzero xor_drop_bit_nonzero) simp_all

lemma xorshift32_zero: "xorshift32 0 = 0"
  by (simp add: xorshift32_def)

lemma funpow_xorshift32_nonzero: "s \<noteq> 0 \<Longrightarrow> (xorshift32 ^^ n) s \<noteq> 0"
  by (induction n) (simp_all add: xorshift32_nonzero)

text \<open>Each of the three steps \<open>x \<mapsto> x XOR (x shifted)\<close> is injective: two
  inputs with the same image differ by a word that is its own shifted copy.\<close>

lemma xor_push_bit_inj:
  assumes "0 < k" and "a XOR push_bit k a = b XOR push_bit k (b :: 'a::len word)"
  shows "a = b"
proof (rule ccontr)
  assume "a \<noteq> b"
  then have "a XOR b \<noteq> 0" by (simp add: xor_eq_zero)
  then have "(a XOR b) XOR push_bit k (a XOR b) \<noteq> 0"
    using assms(1) by (rule xor_push_bit_nonzero)
  moreover have "(a XOR b) XOR push_bit k (a XOR b) = (a XOR push_bit k a) XOR (b XOR push_bit k b)"
    by (simp add: ac_simps)
  ultimately show False using assms(2) by (simp add: xor_eq_zero)
qed

lemma xor_drop_bit_inj:
  assumes "0 < k" and "a XOR drop_bit k a = b XOR drop_bit k (b :: 'a::len word)"
  shows "a = b"
proof (rule ccontr)
  assume "a \<noteq> b"
  then have "a XOR b \<noteq> 0" by (simp add: xor_eq_zero)
  then have "(a XOR b) XOR drop_bit k (a XOR b) \<noteq> 0"
    using assms(1) by (rule xor_drop_bit_nonzero)
  moreover have "(a XOR b) XOR drop_bit k (a XOR b) = (a XOR drop_bit k a) XOR (b XOR drop_bit k b)"
    by (simp add: ac_simps)
  ultimately show False using assms(2) by (simp add: xor_eq_zero)
qed

lemma next_bit_random:
  "next_bit_mode w = MODE_RANDOM \<Longrightarrow> next_bit_state w \<noteq> 0 \<Longrightarrow>
   next_bit w = Inr (random_bit (xorshift32 (next_bit_state w)),
                     w\<lparr>next_bit_state := xorshift32 (next_bit_state w)\<rparr>)"
  by (simp add: next_bit_def Let_def xorshift32_nonzero)

lemma next_bit_const_mode:
  "next_bit_mode w \<in> {MODE_ZERO, MODE_ONE, MODE_UNDEF} \<Longrightarrow>
   next_bit w = Inr (case next_bit_mode w of MODE_ZERO \<Rightarrow> S0 | MODE_ONE \<Rightarrow> S1 | _ \<Rightarrow> Sx, w)"
  by (auto simp: next_bit_def)

lemma next_bit_mode_kept:
  "next_bit w = Inr (b, w') \<Longrightarrow> next_bit_mode w' = next_bit_mode w \<and> siglist w' = siglist w"
  by (auto simp: next_bit_def Let_def split: Mode.splits if_splits)

lemma next_bits_mode_kept:
  "next_bits n w = Inr (bs, w') \<Longrightarrow> next_bit_mode w' = next_bit_mode w \<and> siglist w' = siglist w"
  unfolding next_bits_def
  by (induction n arbitrary: w bs) (auto simp: sbind_eq_Inr split: prod.splits dest!: next_bit_mode_kept)

lemma next_bits_length: "next_bits n w = Inr (bs, w') \<Longrightarrow> length bs = n"
  by (simp add: next_bits_def repeat_sum_length)

lemma next_bit_defined:
  "next_bit w = Inr (b, w') \<Longrightarrow> next_bit_mode w \<noteq> MODE_UNDEF \<Longrightarrow> b \<in> {S0, S1}"
  using random_bit_cases
  by (auto simp: next_bit_def Let_def split: Mode.splits if_splits)

lemma next_bits_Suc:
  "next_bits (Suc n) w =
     sbind (next_bit w) (\<lambda>(a, w1). sbind (next_bits n w1) (\<lambda>(as, w2). Inr (a # as, w2)))"
  by (simp add: next_bits_def)

lemma next_bit_ok:
  assumes "gen_ok w"
  obtains b w' where "next_bit w = Inr (b, w')" and "gen_ok w'"
  using assms xorshift32_nonzero
  by (cases "next_bit_mode w") (auto simp: gen_ok_def next_bit_def Let_def)

lemma next_bits_0 [simp]: "next_bits 0 w = Inr ([], w)"
  by (simp add: next_bits_def)

lemma next_bits_add:
  "next_bits (a + b) w =
     sbind (next_bits a w) (\<lambda>(xs, w1). sbind (next_bits b w1) (\<lambda>(ys, w2). Inr (xs @ ys, w2)))"
  by (simp add: next_bits_def repeat_sum_add)

lemma next_bits_ok:
  "gen_ok w \<Longrightarrow> \<exists>bs w'. next_bits n w = Inr (bs, w') \<and> gen_ok w'"
proof (induction n arbitrary: w)
  case 0
  then show ?case by simp
next
  case (Suc n)
  obtain b w1 where nb: "next_bit w = Inr (b, w1)" and ok: "gen_ok w1" using next_bit_ok [OF Suc.prems] .
  obtain bs w' where "next_bits n w1 = Inr (bs, w')" and "gen_ok w'" using Suc.IH [OF ok] by blast
  then show ?case using nb by (simp add: next_bits_Suc)
qed

lemma random_stream_Suc:
  "random_stream s (Suc n) = random_bit (xorshift32 s) # random_stream (xorshift32 s) n"
  by (simp add: random_stream_def map_upt_Suc funpow_Suc_right del: funpow.simps upt_Suc)

lemma next_bit_free_mode: "free_mode (next_bit_mode w) \<Longrightarrow> next_bit w = Inl Abort"
  by (auto simp: next_bit_def free_mode_def)

lemma next_bits_random:
  assumes "next_bit_mode w = MODE_RANDOM" and "next_bit_state w \<noteq> 0"
  shows "next_bits n w = Inr (random_stream (next_bit_state w) n,
                             w\<lparr>next_bit_state := (xorshift32 ^^ n) (next_bit_state w)\<rparr>)"
  using assms
proof (induction n arbitrary: w)
  case 0
  then show ?case by (simp add: next_bits_def random_stream_def)
next
  case (Suc n)
  let ?w1 = "w\<lparr>next_bit_state := xorshift32 (next_bit_state w)\<rparr>"
  have nb: "next_bit w = Inr (random_bit (xorshift32 (next_bit_state w)), ?w1)"
    using Suc.prems by (rule next_bit_random)
  have "next_bits n ?w1 = Inr (random_stream (xorshift32 (next_bit_state w)) n,
          ?w1\<lparr>next_bit_state := (xorshift32 ^^ n) (xorshift32 (next_bit_state w))\<rparr>)"
    using Suc.IH [of ?w1] Suc.prems by (simp add: xorshift32_nonzero)
  then show ?case
    by (simp add: next_bits_Suc nb random_stream_Suc funpow_Suc_right del: funpow.simps)
qed

lemma next_bit_zero_state:
  "next_bit_mode w = MODE_RANDOM \<Longrightarrow> next_bit_state w = 0 \<Longrightarrow> next_bit w = Inl AssertFail"
  by (simp add: next_bit_def xorshift32_zero)

subsection \<open>Properties\<close>

text \<open>C3: in random mode, from a non-zero state, \<open>n\<close> calls of \<open>next_bit()\<close>
  all succeed (the \<open>log_assert\<close> never fires) and return exactly the first
  \<open>n\<close> bits of the abstract stream of the state, leaving the state advanced by
  \<open>n\<close> xorshift steps: the emitted sequence depends only on the state and the
  number of calls.\<close>

theorem next_bits_random_stream:
  assumes "next_bit_mode w = MODE_RANDOM" and "next_bit_state w \<noteq> 0"
  shows "next_bits n w = Inr (random_stream (next_bit_state w) n,
                             w\<lparr>next_bit_state := (xorshift32 ^^ n) (next_bit_state w)\<rparr>)"
  using assms by (rule next_bits_random)

theorem next_bits_random_stream_witness:
  "next_bits 2 \<lparr>next_bit_mode = MODE_RANDOM, next_bit_state = 1, siglist = []\<rparr> =
     Inr ([S0, S1], \<lparr>next_bit_mode = MODE_RANDOM, next_bit_state = 67634689, siglist = []\<rparr>)"
proof -
  have "next_bits 2 \<lparr>next_bit_mode = MODE_RANDOM, next_bit_state = 1, siglist = []\<rparr> =
          Inr (random_stream 1 2, \<lparr>next_bit_mode = MODE_RANDOM, next_bit_state = (xorshift32 ^^ 2) 1, siglist = []\<rparr>)"
    using next_bits_random_stream [of "\<lparr>next_bit_mode = MODE_RANDOM, next_bit_state = 1, siglist = []\<rparr>" 2]
    by simp
  moreover have "random_stream 1 2 = [S0, S1]" by code_simp
  moreover have "(xorshift32 ^^ 2) 1 = 67634689" by code_simp
  ultimately show ?thesis by (simp only:)
qed

text \<open>C25: the xorshift32 update is a bijection of the 32-bit states, so
  distinct seeds never end in the same state, and a non-zero state never
  becomes zero.\<close>

theorem xorshift32_inj: "inj xorshift32"
proof (rule injI)
  fix a b :: u32
  let ?s1 = "\<lambda>x::u32. x XOR push_bit 13 x"
  let ?s2 = "\<lambda>x::u32. x XOR drop_bit 17 x"
  assume "xorshift32 a = xorshift32 b"
  then have "?s2 (?s1 a) XOR push_bit 5 (?s2 (?s1 a)) = ?s2 (?s1 b) XOR push_bit 5 (?s2 (?s1 b))"
    by (simp add: xorshift32_def Let_def)
  then have "?s2 (?s1 a) = ?s2 (?s1 b)" by (rule xor_push_bit_inj [rotated]) simp
  then have "?s1 a = ?s1 b" by (rule xor_drop_bit_inj [rotated]) simp
  then show "a = b" by (rule xor_push_bit_inj [rotated]) simp
qed

end
