(* ===== verification/Rewriter.thy ===== *)
theory Rewriter
  imports BitGen
begin

text \<open>
  The signal rewriter: \<open>SetundefWorker::operator()(SigSpec &sig)\<close> of
  \<open>src/passes/cmds/setundef.cc\<close>, the functor the pass hands to
  \<open>module->rewrite_sigspecs(worker)\<close>. In the constant modes it replaces every
  constant bit whose state is above \<open>S1\<close> by \<open>next_bit()\<close>, left to right; in
  the two free-variable modes it only records the location of the signal spec
  for the coalescer. The abstract specification \<open>fill_undef\<close> says which bit
  gets which generated value.
\<close>

subsection \<open>The functor\<close>

text \<open>\<open>bit.wire == NULL && bit.data > RTLIL::State::S1\<close>: the constants
  \<open>x\<close>, \<open>z\<close>, \<open>a\<close> and \<open>m\<close>.\<close>

definition is_undef_bit :: "SigBit \<Rightarrow> bool" where
  "is_undef_bit b = (case b of BConst s \<Rightarrow> S1 < s | BWire _ _ \<Rightarrow> False)"

text \<open>The loop \<open>for (auto &bit : sig) if (...) bit = next_bit();\<close>.\<close>

fun rewrite_bits :: "Worker \<Rightarrow> SigSpec \<Rightarrow> Fault + (Worker \<times> SigSpec)" where
  "rewrite_bits w [] = Inr (w, [])"
| "rewrite_bits w (b # bs) =
     (if is_undef_bit b
      then sbind (next_bit w) (\<lambda>(v, w1).
             sbind (rewrite_bits w1 bs) (\<lambda>(w2, bs'). Inr (w2, BConst v # bs')))
      else sbind (rewrite_bits w bs) (\<lambda>(w1, bs'). Inr (w1, b # bs')))"

text \<open>\<open>operator()\<close>: in the free-variable modes, \<open>siglist.push_back(&sig)\<close>
  and return; otherwise the loop above.\<close>

definition worker_apply :: "Worker \<Rightarrow> SigLoc \<Rightarrow> SigSpec \<Rightarrow> Fault + (Worker \<times> SigSpec)" where
  "worker_apply w l sig =
     (if free_mode (next_bit_mode w) then Inr (w\<lparr>siglist := siglist w @ [l]\<rparr>, sig)
      else rewrite_bits w sig)"

text \<open>\<open>module->rewrite_sigspecs(worker)\<close>.\<close>

definition rewrite_module :: "Worker \<Rightarrow> Module \<Rightarrow> Fault + (Worker \<times> Module)" where
  "rewrite_module w m = rewrite_sigspecs worker_apply w m"

text \<open>Example inputs for the witnesses below.\<close>

definition ex_worker :: "Mode \<Rightarrow> u32 \<Rightarrow> Worker" where
  "ex_worker md st = \<lparr>next_bit_mode = md, next_bit_state = st, siglist = []\<rparr>"

definition ex_module :: Module where
  "ex_module =
     \<lparr>mod_name = ''top'', mod_wires = [],
      mod_cells = [\<lparr>cell_name = ''c'', cell_type = ''$and'', cell_params = [],
                    cell_conns = [(''A'', [BConst Sx, BWire ''a'' 0])]\<rparr>],
      mod_procs = [], mod_conns = [([BWire ''b'' 0], [BConst Sz])]\<rparr>"

subsection \<open>Abstract specification\<close>

text \<open>The undefined bits of a spec, filled left to right from a list of
  values.\<close>

fun fill_undef :: "SigSpec \<Rightarrow> State list \<Rightarrow> SigSpec" where
  "fill_undef [] vs = []"
| "fill_undef (b # bs) vs =
     (if is_undef_bit b
      then (case vs of [] \<Rightarrow> b # fill_undef bs [] | v # vs' \<Rightarrow> BConst v # fill_undef bs vs')
      else b # fill_undef bs vs)"

definition count_undef :: "SigSpec \<Rightarrow> nat" where
  "count_undef sig = length (filter is_undef_bit sig)"

subsection \<open>Lemmas\<close>

lemma is_undef_bit_simps [simp]:
  "is_undef_bit (BConst s) \<longleftrightarrow> s \<notin> {S0, S1}"
  "\<not> is_undef_bit (BWire n i)"
  by (simp_all add: is_undef_bit_def)

lemma count_undef_simps [simp]:
  "count_undef [] = 0"
  "count_undef (b # bs) = (if is_undef_bit b then Suc (count_undef bs) else count_undef bs)"
  by (simp_all add: count_undef_def)

lemma fill_undef_length [simp]: "length (fill_undef sig vs) = length sig"
  by (induction sig vs rule: fill_undef.induct) (auto split: list.splits)

lemma fill_undef_keep:
  "i < length sig \<Longrightarrow> \<not> is_undef_bit (sig ! i) \<Longrightarrow> fill_undef sig vs ! i = sig ! i"
proof (induction sig vs arbitrary: i rule: fill_undef.induct)
  case (1 vs)
  then show ?case by simp
next
  case (2 b bs vs)
  then show ?case by (cases i) (auto split: list.splits)
qed

lemma fill_undef_defined:
  "count_undef sig \<le> length vs \<Longrightarrow> \<forall>v\<in>set vs. v \<in> {S0, S1} \<Longrightarrow>
   \<forall>b\<in>set (fill_undef sig vs). \<not> is_undef_bit b"
proof (induction sig vs rule: fill_undef.induct)
  case (1 vs)
  then show ?case by simp
next
  case (2 b bs vs)
  show ?case
  proof (cases "is_undef_bit b")
    case True
    with "2.prems"(1) obtain v vs' where vs: "vs = v # vs'" by (cases vs) auto
    have "\<forall>b\<in>set (fill_undef bs vs'). \<not> is_undef_bit b"
      using "2.IH"(2) [OF True vs] "2.prems" True vs by simp
    then show ?thesis using True vs "2.prems"(2) by auto
  next
    case False
    have "\<forall>b\<in>set (fill_undef bs vs). \<not> is_undef_bit b"
      using "2.IH"(3) [OF False] "2.prems" False by simp
    then show ?thesis using False by simp
  qed
qed

text \<open>The loop is the specification applied to the next \<open>count_undef sig\<close>
  values of the generator: it calls \<open>next_bit()\<close> once per undefined bit, in
  order, and fails exactly when one of these calls fails.\<close>

lemma rewrite_bits_fill:
  "rewrite_bits w sig =
     sbind (next_bits (count_undef sig) w) (\<lambda>(vs, w'). Inr (w', fill_undef sig vs))"
proof (induction sig arbitrary: w)
  case Nil
  then show ?case by (simp add: next_bits_def)
next
  case (Cons b bs)
  show ?case
  proof (cases "is_undef_bit b")
    case True
    then show ?thesis
      by (simp add: Cons.IH next_bits_Suc sbind_assoc split_def)
  next
    case False
    then show ?thesis
      by (simp add: Cons.IH sbind_assoc split_def)
  qed
qed

lemma rewrite_bits_Inr:
  assumes "rewrite_bits w sig = Inr (w', sig')"
  obtains vs where "next_bits (count_undef sig) w = Inr (vs, w')" and "sig' = fill_undef sig vs"
  using assms by (auto simp: rewrite_bits_fill sbind_eq_Inr)

lemma rewrite_bits_mode:
  "rewrite_bits w sig = Inr (w', sig') \<Longrightarrow> next_bit_mode w' = next_bit_mode w \<and> siglist w' = siglist w"
  by (erule rewrite_bits_Inr) (rule next_bits_mode_kept)

lemma next_bits_defined:
  "next_bits n w = Inr (vs, w') \<Longrightarrow> next_bit_mode w \<noteq> MODE_UNDEF \<Longrightarrow> \<forall>v\<in>set vs. v \<in> {S0, S1}"
proof (induction n arbitrary: w vs)
  case 0
  then show ?case by (simp add: next_bits_def)
next
  case (Suc n)
  from Suc.prems(1) obtain v w1 vs1 where nb: "next_bit w = Inr (v, w1)"
    and rest: "next_bits n w1 = Inr (vs1, w')" and vs: "vs = v # vs1"
    by (auto simp: next_bits_Suc sbind_eq_Inr split: prod.splits)
  have "v \<in> {S0, S1}" using next_bit_defined [OF nb Suc.prems(2)] .
  moreover have "\<forall>v\<in>set vs1. v \<in> {S0, S1}"
    using Suc.IH [OF rest] next_bit_mode_kept [OF nb] Suc.prems(2) by simp
  ultimately show ?case using vs by simp
qed

lemma worker_apply_mode:
  "worker_apply w l x = Inr (w1, y) \<Longrightarrow> next_bit_mode w1 = next_bit_mode w"
  by (auto simp: worker_apply_def dest: rewrite_bits_mode split: if_splits)

lemma rewrite_locs_free:
  "free_mode (next_bit_mode w) \<Longrightarrow>
   rewrite_locs worker_apply ls w m = Inr (w\<lparr>siglist := siglist w @ ls\<rparr>, m)"
  by (induction ls arbitrary: w) (simp_all add: worker_apply_def)

text \<open>What one call of the loop guarantees, in one statement for the
  traversal lemmas below.\<close>

lemma rewrite_bits_post:
  assumes "rewrite_bits w sig = Inr (w', sig')"
  shows "length sig' = length sig"
    and "\<forall>i<length sig. \<not> is_undef_bit (sig ! i) \<longrightarrow> sig' ! i = sig ! i"
    and "next_bit_mode w \<noteq> MODE_UNDEF \<Longrightarrow> \<forall>b\<in>set sig'. \<not> is_undef_bit b"
    and "next_bit_mode w' = next_bit_mode w"
proof -
  obtain vs where nb: "next_bits (count_undef sig) w = Inr (vs, w')" and sig': "sig' = fill_undef sig vs"
    using assms by (rule rewrite_bits_Inr)
  show "length sig' = length sig" using sig' by simp
  show "\<forall>i<length sig. \<not> is_undef_bit (sig ! i) \<longrightarrow> sig' ! i = sig ! i"
    using sig' by (simp add: fill_undef_keep)
  show "next_bit_mode w' = next_bit_mode w" using nb by (simp add: next_bits_mode_kept)
  assume md: "next_bit_mode w \<noteq> MODE_UNDEF"
  have "length vs = count_undef sig" using nb by (rule next_bits_length)
  moreover have "\<forall>v\<in>set vs. v \<in> {S0, S1}" using nb md by (rule next_bits_defined)
  ultimately show "\<forall>b\<in>set sig'. \<not> is_undef_bit b" using sig' fill_undef_defined [of sig vs] by simp
qed

lemma rewrite_bits_fixed:
  "next_bit w = Inr (c, w) \<Longrightarrow>
   rewrite_bits w sig = Inr (w, map (\<lambda>b. if is_undef_bit b then BConst c else b) sig)"
  by (induction sig) simp_all

lemma rewrite_module_post:
  assumes "rewrite_module w m = Inr (w', m')" and "\<not> free_mode (next_bit_mode w)"
    and "next_bit_mode w \<noteq> MODE_UNDEF" and "loc_valid m l"
  shows "length (sig_at m' l) = length (sig_at m l)
       \<and> (\<forall>i<length (sig_at m l). \<not> is_undef_bit (sig_at m l ! i) \<longrightarrow> sig_at m' l ! i = sig_at m l ! i)
       \<and> (\<forall>b\<in>set (sig_at m' l). \<not> is_undef_bit b)"
proof (rule rewrite_sigspecs_post [where I = "\<lambda>w1. next_bit_mode w1 = next_bit_mode w"])
  show "rewrite_sigspecs worker_apply w m = Inr (w', m')"
    using assms(1) by (simp add: rewrite_module_def)
  show "next_bit_mode w = next_bit_mode w" ..
  show "loc_valid m l" by fact
next
  fix s l x s1 y
  assume md: "next_bit_mode s = next_bit_mode w" and ap: "worker_apply s l x = Inr (s1, y)"
  then have rb: "rewrite_bits s x = Inr (s1, y)" using assms(2) by (simp add: worker_apply_def)
  show "next_bit_mode s1 = next_bit_mode w \<and>
        length y = length x \<and> (\<forall>i<length x. \<not> is_undef_bit (x ! i) \<longrightarrow> y ! i = x ! i)
        \<and> (\<forall>b\<in>set y. \<not> is_undef_bit b)"
    using rewrite_bits_post [OF rb] md assms(3) by simp
qed

subsection \<open>Properties of one signal spec\<close>

text \<open>C18: a wire bit and the constants \<open>0\<close> and \<open>1\<close> are never changed,
  whatever the mode.\<close>

theorem rewrite_bits_no_spurious:
  assumes "rewrite_bits w sig = Inr (w', sig')" and "i < length sig"
    and "sig ! i \<in> {BConst S0, BConst S1} \<or> (\<exists>n k. sig ! i = BWire n k)"
  shows "sig' ! i = sig ! i"
proof -
  have "\<not> is_undef_bit (sig ! i)" using assms(3) by auto
  then show ?thesis using rewrite_bits_post(2) [OF assms(1)] assms(2) by simp
qed

theorem rewrite_bits_no_spurious_witness:
  "rewrite_bits (ex_worker MODE_ONE 0) [BConst Sx, BWire ''a'' 0, BConst S0] =
     Inr (ex_worker MODE_ONE 0, [BConst S1, BWire ''a'' 0, BConst S0])
   \<and> [BConst S1, BWire ''a'' 0, BConst S0] ! 2 = [BConst Sx, BWire ''a'' 0, BConst S0] ! 2"
proof -
  have h: "rewrite_bits (ex_worker MODE_ONE 0) [BConst Sx, BWire ''a'' 0, BConst S0] =
     Inr (ex_worker MODE_ONE 0, [BConst S1, BWire ''a'' 0, BConst S0])"
    by (simp add: ex_worker_def next_bit_def)
  have "[BConst S1, BWire ''a'' 0, BConst S0] ! 2 = [BConst Sx, BWire ''a'' 0, BConst S0] ! 2"
    by (rule rewrite_bits_no_spurious [OF h]) simp_all
  with h show ?thesis by (rule conjI)
qed

text \<open>C4: in every mode but \<open>-undef\<close>, no undefined constant is left: the
  rewriting is exhaustive and the generator only yields \<open>0\<close> and \<open>1\<close>.\<close>

theorem rewrite_bits_complete:
  assumes "rewrite_bits w sig = Inr (w', sig')" and "next_bit_mode w \<noteq> MODE_UNDEF"
  shows "\<forall>b\<in>set sig'. \<not> is_undef_bit b"
  using assms by (rule rewrite_bits_post(3))

theorem rewrite_bits_complete_witness:
  "rewrite_bits (ex_worker MODE_RANDOM 1) [BConst Sx, BWire ''a'' 0, BConst Sz] =
     Inr (ex_worker MODE_RANDOM 67634689, [BConst S0, BWire ''a'' 0, BConst S1])
   \<and> list_all (\<lambda>b. \<not> is_undef_bit b) [BConst S0, BWire ''a'' 0, BConst S1]"
proof -
  have h: "rewrite_bits (ex_worker MODE_RANDOM 1) [BConst Sx, BWire ''a'' 0, BConst Sz] =
     Inr (ex_worker MODE_RANDOM 67634689, [BConst S0, BWire ''a'' 0, BConst S1])"
    unfolding ex_worker_def by code_simp
  have "\<forall>b\<in>set [BConst S0, BWire ''a'' 0, BConst S1]. \<not> is_undef_bit b"
    by (rule rewrite_bits_complete [OF h]) (simp add: ex_worker_def)
  then have "list_all (\<lambda>b. \<not> is_undef_bit b) [BConst S0, BWire ''a'' 0, BConst S1]"
    by (simp only: list_all_iff)
  with h show ?thesis by (rule conjI)
qed

text \<open>C19: in the modes \<open>-zero\<close>, \<open>-one\<close> and \<open>-undef\<close> every undefined
  constant becomes the mode's constant and the worker is unchanged.\<close>

theorem rewrite_bits_const_mode:
  assumes "next_bit_mode w \<in> {MODE_ZERO, MODE_ONE, MODE_UNDEF}"
  shows "rewrite_bits w sig =
    Inr (w, map (\<lambda>b. if is_undef_bit b
                      then BConst (case next_bit_mode w of MODE_ZERO \<Rightarrow> S0 | MODE_ONE \<Rightarrow> S1 | _ \<Rightarrow> Sx)
                      else b) sig)"
  using next_bit_const_mode [OF assms] by (rule rewrite_bits_fixed)

theorem rewrite_bits_const_mode_witness:
  "rewrite_bits (ex_worker MODE_ONE 5) [BConst Sx, BWire ''a'' 0, BConst Sz, BConst S0] =
     Inr (ex_worker MODE_ONE 5, [BConst S1, BWire ''a'' 0, BConst S1, BConst S0])"
proof -
  have "rewrite_bits (ex_worker MODE_ONE 5) [BConst Sx, BWire ''a'' 0, BConst Sz, BConst S0] =
    Inr (ex_worker MODE_ONE 5, map (\<lambda>b. if is_undef_bit b
        then BConst (case next_bit_mode (ex_worker MODE_ONE 5) of MODE_ZERO \<Rightarrow> S0 | MODE_ONE \<Rightarrow> S1 | _ \<Rightarrow> Sx)
        else b) [BConst Sx, BWire ''a'' 0, BConst Sz, BConst S0])"
    by (rule rewrite_bits_const_mode) (simp add: ex_worker_def)
  then show ?thesis by (simp add: ex_worker_def del: rewrite_bits.simps)
qed

text \<open>C20: in random mode from a non-zero state the rewriting succeeds and
  fills the undefined bits, left to right, with the next bits of the abstract
  random stream.\<close>

theorem rewrite_bits_random:
  assumes "next_bit_mode w = MODE_RANDOM" and "next_bit_state w \<noteq> 0"
  shows "rewrite_bits w sig =
    Inr (w\<lparr>next_bit_state := (xorshift32 ^^ count_undef sig) (next_bit_state w)\<rparr>,
         fill_undef sig (random_stream (next_bit_state w) (count_undef sig)))"
  by (simp add: rewrite_bits_fill next_bits_random [OF assms])

theorem rewrite_bits_random_witness:
  "rewrite_bits (ex_worker MODE_RANDOM 1) [BConst Sx, BWire ''a'' 0, BConst Sz] =
     Inr (ex_worker MODE_RANDOM 67634689, [BConst S0, BWire ''a'' 0, BConst S1])"
proof -
  let ?w = "ex_worker MODE_RANDOM 1" and ?s = "[BConst Sx, BWire ''a'' 0, BConst Sz]"
  have r: "rewrite_bits ?w ?s =
    Inr (?w\<lparr>next_bit_state := (xorshift32 ^^ count_undef ?s) (next_bit_state ?w)\<rparr>,
         fill_undef ?s (random_stream (next_bit_state ?w) (count_undef ?s)))"
    by (rule rewrite_bits_random) (simp_all add: ex_worker_def)
  have c: "count_undef ?s = 2" by simp
  have st: "next_bit_state ?w = 1" by (simp add: ex_worker_def)
  have rs: "random_stream 1 2 = [S0, S1]" by code_simp
  have xs: "(xorshift32 ^^ 2) 1 = 67634689" by code_simp
  from r show ?thesis
    unfolding c st rs xs by (simp add: ex_worker_def del: rewrite_bits.simps)
qed

subsection \<open>Properties of the module traversal\<close>

text \<open>C9: in the modes \<open>-zero\<close>, \<open>-one\<close> and \<open>-random\<close>, after
  \<open>rewrite_sigspecs\<close> every signal spec of the module (cell ports, processes,
  both sides of every connection) has its old width, keeps every bit that was
  not an undefined constant, and holds no undefined constant.\<close>

theorem rewrite_module_resolves:
  assumes "rewrite_module w m = Inr (w', m')" and "\<not> free_mode (next_bit_mode w)"
    and "next_bit_mode w \<noteq> MODE_UNDEF" and "loc_valid m l"
  shows "length (sig_at m' l) = length (sig_at m l)
       \<and> (\<forall>i<length (sig_at m l). \<not> is_undef_bit (sig_at m l ! i) \<longrightarrow> sig_at m' l ! i = sig_at m l ! i)
       \<and> (\<forall>b\<in>set (sig_at m' l). \<not> is_undef_bit b)"
  using assms by (rule rewrite_module_post)

theorem rewrite_module_resolves_witness:
  "rewrite_module (ex_worker MODE_ZERO 0) ex_module =
     Inr (ex_worker MODE_ZERO 0, ex_module\<lparr>mod_cells :=
        [\<lparr>cell_name = ''c'', cell_type = ''$and'', cell_params = [],
          cell_conns = [(''A'', [BConst S0, BWire ''a'' 0])]\<rparr>],
        mod_conns := [([BWire ''b'' 0], [BConst S0])]\<rparr>)
   \<and> list_all (\<lambda>b. \<not> is_undef_bit b) [BConst S0]"
proof -
  have h: "rewrite_module (ex_worker MODE_ZERO 0) ex_module =
     Inr (ex_worker MODE_ZERO 0, ex_module\<lparr>mod_cells :=
        [\<lparr>cell_name = ''c'', cell_type = ''$and'', cell_params = [],
          cell_conns = [(''A'', [BConst S0, BWire ''a'' 0])]\<rparr>],
        mod_conns := [([BWire ''b'' 0], [BConst S0])]\<rparr>)"
    unfolding ex_worker_def ex_module_def by code_simp
  have "length (sig_at (ex_module\<lparr>mod_cells :=
        [\<lparr>cell_name = ''c'', cell_type = ''$and'', cell_params = [],
          cell_conns = [(''A'', [BConst S0, BWire ''a'' 0])]\<rparr>],
        mod_conns := [([BWire ''b'' 0], [BConst S0])]\<rparr>) (LocConnR 0)) = length (sig_at ex_module (LocConnR 0))
     \<and> (\<forall>i<length (sig_at ex_module (LocConnR 0)). \<not> is_undef_bit (sig_at ex_module (LocConnR 0) ! i) \<longrightarrow>
           sig_at (ex_module\<lparr>mod_cells :=
        [\<lparr>cell_name = ''c'', cell_type = ''$and'', cell_params = [],
          cell_conns = [(''A'', [BConst S0, BWire ''a'' 0])]\<rparr>],
        mod_conns := [([BWire ''b'' 0], [BConst S0])]\<rparr>) (LocConnR 0) ! i = sig_at ex_module (LocConnR 0) ! i)
     \<and> (\<forall>b\<in>set (sig_at (ex_module\<lparr>mod_cells :=
        [\<lparr>cell_name = ''c'', cell_type = ''$and'', cell_params = [],
          cell_conns = [(''A'', [BConst S0, BWire ''a'' 0])]\<rparr>],
        mod_conns := [([BWire ''b'' 0], [BConst S0])]\<rparr>) (LocConnR 0)). \<not> is_undef_bit b)"
    by (rule rewrite_module_resolves [OF h]) (simp_all add: ex_worker_def ex_module_def free_mode_def)
  then have "list_all (\<lambda>b. \<not> is_undef_bit b) [BConst S0]"
    by (simp add: list_all_iff del: is_undef_bit_simps)
  with h show ?thesis by (rule conjI)
qed

text \<open>C21: in the free-variable modes the traversal changes nothing and records
  every location of the module, in traversal order, after those already
  recorded.\<close>

theorem rewrite_module_free:
  "free_mode (next_bit_mode w) \<Longrightarrow>
   rewrite_module w m = Inr (w\<lparr>siglist := siglist w @ sig_locs m\<rparr>, m)"
  by (simp add: rewrite_module_def rewrite_sigspecs_def rewrite_locs_free)

theorem rewrite_module_free_witness:
  "rewrite_module (ex_worker MODE_ANYSEQ 0) ex_module =
     Inr ((ex_worker MODE_ANYSEQ 0)\<lparr>siglist := [LocCell 0 0, LocConnL 0, LocConnR 0]\<rparr>, ex_module)"
proof -
  have "rewrite_module (ex_worker MODE_ANYSEQ 0) ex_module =
     Inr ((ex_worker MODE_ANYSEQ 0)\<lparr>siglist := siglist (ex_worker MODE_ANYSEQ 0) @ sig_locs ex_module\<rparr>, ex_module)"
    by (rule rewrite_module_free) (simp add: ex_worker_def free_mode_def)
  moreover have "sig_locs ex_module = [LocCell 0 0, LocConnL 0, LocConnR 0]"
    by (simp add: sig_locs_def ex_module_def)
  ultimately show ?thesis by (simp add: ex_worker_def)
qed

end
