(* ===== verification/Coalesce.thy ===== *)
theory Coalesce
  imports Rewriter
begin

text \<open>
  The free-variable coalescer of \<open>SetundefPass::execute\<close>
  (\<open>src/passes/cmds/setundef.cc\<close>, the block after \<open>rewrite_sigspecs\<close> in the
  modes \<open>-anyseq\<close> and \<open>-anyconst\<close>): for each recorded signal spec, a cursor
  scans left to right, an inner loop measures the run of \<open>x\<close> bits at the
  cursor, and a run of width \<open>w > 0\<close> is replaced at once by the output of one
  new \<open>$anyseq\<close> or \<open>$anyconst\<close> cell of width \<open>w\<close>. The reference
  \<open>x_runs\<close> lists the maximal runs of a spec; the cursor loop is shown to
  create exactly one source per maximal run, in order.
\<close>

subsection \<open>The loops\<close>

text \<open>\<open>while (cursor+width < GetSize(sig) && sig[cursor+width] == State::Sx)
  width++;\<close>\<close>

function x_width :: "SigSpec \<Rightarrow> nat \<Rightarrow> nat \<Rightarrow> nat" where
  "x_width sig cursor width =
     (if cursor + width < length sig \<and> sig ! (cursor + width) = BConst Sx
      then x_width sig cursor (Suc width) else width)"
  by pat_completeness auto
termination
  by (relation "measure (\<lambda>(sig, cursor, width). length sig - (cursor + width))") auto

declare x_width.simps [simp del]

text \<open>The cell type and the \<open>NEW_ID\<close> call site of the two branches
  \<open>module->Anyseq(NEW_ID, width)\<close> and \<open>module->Anyconst(NEW_ID, width)\<close>.\<close>

definition source_type :: "Mode \<Rightarrow> string" where
  "source_type md = (if md = MODE_ANYSEQ then ''$anyseq'' else ''$anyconst'')"

definition source_site :: "Mode \<Rightarrow> string" where
  "source_site md =
     (if md = MODE_ANYSEQ then ''setundef.cc:321:execute'' else ''setundef.cc:323:execute'')"

text \<open>The cursor loop over one signal spec, with the module and the name
  counter it extends.\<close>

function coalesce_loop :: "Mode \<Rightarrow> nat \<Rightarrow> SigSpec \<Rightarrow> mstate \<Rightarrow> SigSpec \<times> mstate" where
  "coalesce_loop md cursor sig st =
     (if cursor < length sig then
        (let width = x_width sig cursor 0 in
         if 0 < width then
           (let r = add_free_source (source_type md) (source_site md) width st
            in coalesce_loop md (cursor + width) (sig_replace cursor sig (fst r)) (snd r))
         else coalesce_loop md (Suc cursor) sig st)
      else (sig, st))"
  by pat_completeness auto
termination
  by (relation "measure (\<lambda>(md, cursor, sig, st). length sig - cursor)")
     (auto simp: sig_replace_def)

text \<open>\<open>for (auto sigptr : siglist) { SigSpec &sig = *sigptr; ... }\<close>: the
  loop runs on the spec the pointer designates and the result is written back
  through it.\<close>

definition coalesce_sig :: "Mode \<Rightarrow> mstate \<Rightarrow> SigLoc \<Rightarrow> mstate" where
  "coalesce_sig md st l =
     (let r = coalesce_loop md 0 (sig_at (snd st) l) st
      in (fst (snd r), sig_put (snd (snd r)) l (fst r)))"

definition coalesce_all :: "Mode \<Rightarrow> SigLoc list \<Rightarrow> mstate \<Rightarrow> mstate" where
  "coalesce_all md ls st = fold (\<lambda>l st. coalesce_sig md st l) ls st"

subsection \<open>Reference: maximal runs of \<open>x\<close> bits\<close>

definition is_x :: "SigBit \<Rightarrow> bool" where
  "is_x b \<longleftrightarrow> b = BConst Sx"

text \<open>\<open>x_runs i xs\<close>: start (counted from \<open>i\<close>) and width of each maximal
  run of \<open>x\<close> bits of \<open>xs\<close>, left to right.\<close>

function x_runs :: "nat \<Rightarrow> SigSpec \<Rightarrow> (nat \<times> nat) list" where
  "x_runs i [] = []"
| "x_runs i (b # bs) =
     (if is_x b
      then (let w = length (takeWhile is_x (b # bs)) in (i, w) # x_runs (i + w) (drop w (b # bs)))
      else x_runs (Suc i) bs)"
  by pat_completeness auto
termination
  by (relation "measure (\<lambda>(i, xs). length xs)") auto

text \<open>Applying a list of runs in order: one source per run, spliced in at the
  run's start.\<close>

fun apply_runs :: "Mode \<Rightarrow> (nat \<times> nat) list \<Rightarrow> SigSpec \<Rightarrow> mstate \<Rightarrow> SigSpec \<times> mstate" where
  "apply_runs md [] sig st = (sig, st)"
| "apply_runs md ((s, w) # rs) sig st =
     (let r = add_free_source (source_type md) (source_site md) w st
      in apply_runs md rs (sig_replace s sig (fst r)) (snd r))"

text \<open>The cells and wires that sources of the widths \<open>ws\<close> add, drawing
  their names from counter \<open>idx\<close> on.\<close>

fun run_cells :: "Mode \<Rightarrow> nat \<Rightarrow> nat list \<Rightarrow> Cell list" where
  "run_cells md idx [] = []"
| "run_cells md idx (w # ws) =
     free_cell (source_type md) (source_site md) idx w # run_cells md (Suc (Suc idx)) ws"

fun run_wires :: "nat \<Rightarrow> nat list \<Rightarrow> Wire list" where
  "run_wires idx [] = []"
| "run_wires idx (w # ws) = free_wire idx w # run_wires (Suc (Suc idx)) ws"

text \<open>A maximal run of \<open>x\<close> bits of \<open>xs\<close>: \<open>w > 0\<close> positions from
  \<open>s\<close> on, all \<open>x\<close>, with no \<open>x\<close> bit just before or just after.\<close>

definition max_x_run :: "SigSpec \<Rightarrow> nat \<Rightarrow> nat \<Rightarrow> bool" where
  "max_x_run xs s w \<longleftrightarrow>
     0 < w \<and> s + w \<le> length xs \<and> (\<forall>j\<in>{s..<s + w}. is_x (xs ! j))
     \<and> (s = 0 \<or> \<not> is_x (xs ! (s - 1))) \<and> (s + w = length xs \<or> \<not> is_x (xs ! (s + w)))"

text \<open>An example spec with two maximal runs, for the witnesses below.\<close>

definition ex_sig :: SigSpec where
  "ex_sig = [BConst Sx, BConst Sx, BConst S1, BConst Sx]"

text \<open>What the coalescer guarantees of one signal spec.\<close>

definition coalesced :: "SigSpec \<Rightarrow> SigSpec \<Rightarrow> bool" where
  "coalesced x y \<longleftrightarrow> length y = length x
     \<and> (\<forall>j<length x. x ! j \<noteq> BConst Sx \<longrightarrow> y ! j = x ! j) \<and> BConst Sx \<notin> set y"

declare coalesce_loop.simps [simp del]

subsection \<open>Lemmas: the inner loop\<close>

lemma x_width_takeWhile:
  "x_width sig cursor width = width + length (takeWhile is_x (drop (cursor + width) sig))"
proof (induction sig cursor width rule: x_width.induct)
  case (1 sig cursor width)
  show ?case
  proof (cases "cursor + width < length sig \<and> sig ! (cursor + width) = BConst Sx")
    case True
    then have "drop (cursor + width) sig = BConst Sx # drop (cursor + Suc width) sig"
      by (metis Cons_nth_drop_Suc add_Suc_right)
    with True "1.IH" show ?thesis
      by (simp add: x_width.simps [of sig cursor width] is_x_def)
  next
    case False
    then have "takeWhile is_x (drop (cursor + width) sig) = []"
      by (cases "drop (cursor + width) sig") (auto simp: is_x_def nth_via_drop)
    moreover have "x_width sig cursor width = width"
      using False by (subst x_width.simps) auto
    ultimately show ?thesis by simp
  qed
qed

lemma x_width_bound: "cursor \<le> length sig \<Longrightarrow> cursor + x_width sig cursor 0 \<le> length sig"
  using length_takeWhile_le [of is_x "drop cursor sig"] by (simp add: x_width_takeWhile)

lemma x_width_pos:
  assumes "0 < x_width sig cursor 0"
  shows "cursor < length sig" and "drop cursor sig = BConst Sx # drop (Suc cursor) sig"
proof -
  have tw: "takeWhile is_x (drop cursor sig) \<noteq> []" using assms by (simp add: x_width_takeWhile)
  then obtain b bs where d: "drop cursor sig = b # bs" and b: "is_x b"
    by (cases "drop cursor sig") (auto split: if_splits)
  from d show "cursor < length sig" by (metis drop_all list.distinct(1) not_le)
  then show "drop cursor sig = BConst Sx # drop (Suc cursor) sig"
    using d b by (metis Cons_nth_drop_Suc is_x_def list.inject)
qed

lemma x_width_zero:
  assumes "x_width sig cursor 0 = 0" and "cursor < length sig"
  shows "sig ! cursor \<noteq> BConst Sx"
proof
  assume x: "sig ! cursor = BConst Sx"
  have "drop cursor sig = sig ! cursor # drop (Suc cursor) sig"
    using assms(2) by (rule Cons_nth_drop_Suc [symmetric])
  then have "0 < x_width sig cursor 0" using x by (simp add: x_width_takeWhile is_x_def)
  then show False using assms(1) by simp
qed

lemma drop_sig_replace:
  "cursor + length bits \<le> length sig \<Longrightarrow>
   drop (cursor + length bits) (sig_replace cursor sig bits) = drop (cursor + length bits) sig"
  by (simp add: sig_replace_def)

lemma length_sig_replace [simp]:
  "cursor + length bits \<le> length sig \<Longrightarrow> length (sig_replace cursor sig bits) = length sig"
  by (simp add: sig_replace_def)

lemma nth_sig_replace:
  "cursor + length bits \<le> length sig \<Longrightarrow> j < length sig \<Longrightarrow>
   sig_replace cursor sig bits ! j =
     (if cursor \<le> j \<and> j < cursor + length bits then bits ! (j - cursor) else sig ! j)"
  by (auto simp: sig_replace_def nth_splice)

lemma x_runs_x:
  "is_x b \<Longrightarrow> x_runs i (b # bs) =
     (i, length (takeWhile is_x (b # bs))) # x_runs (i + length (takeWhile is_x (b # bs)))
        (drop (length (takeWhile is_x (b # bs))) (b # bs))"
  by (simp add: Let_def)

text \<open>The cursor loop creates the sources of the reference runs of the part
  of the spec from the cursor on, in order.\<close>

lemma coalesce_loop_runs:
  "coalesce_loop md cursor sig st = apply_runs md (x_runs cursor (drop cursor sig)) sig st"
proof (induction md cursor sig st rule: coalesce_loop.induct)
  case (1 md cursor sig st)
  let ?w = "x_width sig cursor 0"
  let ?r = "add_free_source (source_type md) (source_site md) ?w st"
  show ?case
  proof (cases "cursor < length sig")
    case False
    then show ?thesis by (simp add: coalesce_loop.simps [of md cursor sig st])
  next
    case lt: True
    show ?thesis
    proof (cases "0 < ?w")
      case True
      have d: "drop cursor sig = BConst Sx # drop (Suc cursor) sig"
        using x_width_pos(2) [OF True] .
      have tw: "length (takeWhile is_x (drop cursor sig)) = ?w"
        by (simp add: x_width_takeWhile)
      have bound: "cursor + length (fst ?r) \<le> length sig"
        using x_width_bound [of cursor sig] lt by simp
      have "x_runs cursor (drop cursor sig) = (cursor, ?w) # x_runs (cursor + ?w) (drop ?w (drop cursor sig))"
        using x_runs_x [of "BConst Sx" cursor "drop (Suc cursor) sig"]
        unfolding d [symmetric] tw by (simp add: is_x_def)
      then have runs: "x_runs cursor (drop cursor sig) = (cursor, ?w) # x_runs (cursor + ?w) (drop (cursor + ?w) sig)"
        by (simp add: add.commute)
      have "drop (cursor + ?w) (sig_replace cursor sig (fst ?r)) = drop (cursor + ?w) sig"
        using drop_sig_replace [OF bound] by simp
      with "1.IH"(1) [OF lt refl True refl] runs lt True show ?thesis
        by (simp add: coalesce_loop.simps [of md cursor sig st] Let_def)
    next
      case False
      have nx: "\<not> is_x (sig ! cursor)" using x_width_zero [of sig cursor] False lt by (simp add: is_x_def)
      have "x_runs cursor (drop cursor sig) = x_runs (Suc cursor) (drop (Suc cursor) sig)"
        using nx lt by (simp add: Cons_nth_drop_Suc [symmetric])
      with "1.IH"(2) [OF lt refl False] lt False show ?thesis
        by (simp add: coalesce_loop.simps [of md cursor sig st] Let_def)
    qed
  qed
qed

lemma x_width_all_x:
  assumes "cursor \<le> j" and "j < cursor + x_width sig cursor 0"
  shows "sig ! j = BConst Sx"
proof -
  have lt: "j - cursor < length (takeWhile is_x (drop cursor sig))"
    using assms by (simp add: x_width_takeWhile)
  then have "is_x (drop cursor sig ! (j - cursor))"
    by (metis nth_mem set_takeWhileD takeWhile_nth)
  moreover have "j - cursor < length (drop cursor sig)"
    using lt length_takeWhile_le less_le_trans by blast
  ultimately show ?thesis using assms(1) by (simp add: is_x_def)
qed

lemma apply_runs_state:
  "apply_runs md rs sig (idx, m) = (sig', (idx', m')) \<Longrightarrow>
   idx' = idx + 2 * length rs
   \<and> mod_cells m' = mod_cells m @ run_cells md idx (map snd rs)
   \<and> mod_wires m' = mod_wires m @ run_wires idx (map snd rs)"
proof (induction rs arbitrary: sig idx m)
  case Nil
  then show ?case by simp
next
  case (Cons r rs)
  obtain s w where r: "r = (s, w)" by fastforce
  let ?m1 = "m\<lparr>mod_wires := mod_wires m @ [free_wire idx w],
                mod_cells := mod_cells m @ [free_cell (source_type md) (source_site md) idx w]\<rparr>"
  have "apply_runs md rs (sig_replace s sig (wire_sig (free_wire idx w))) (Suc (Suc idx), ?m1)
        = (sig', (idx', m'))"
    using Cons.prems r by (simp add: add_free_source_def)
  from Cons.IH [OF this] show ?case using r by simp
qed

text \<open>What the loop does to the spec from the cursor on: the width is kept,
  bits before the cursor and bits that are not \<open>x\<close> are kept, and no
  \<open>x\<close> bit is left from the cursor on.\<close>

lemma coalesce_loop_sig:
  assumes "coalesce_loop md cursor sig st = (sig', st')"
  shows "length sig' = length sig
       \<and> (\<forall>j<length sig. (j < cursor \<or> sig ! j \<noteq> BConst Sx) \<longrightarrow> sig' ! j = sig ! j)
       \<and> (\<forall>j<length sig. cursor \<le> j \<longrightarrow> sig' ! j \<noteq> BConst Sx)"
  using assms
proof (induction md cursor sig st arbitrary: sig' st' rule: coalesce_loop.induct)
  case (1 md cursor sig st)
  let ?w = "x_width sig cursor 0"
  let ?r = "add_free_source (source_type md) (source_site md) ?w st"
  let ?sig1 = "sig_replace cursor sig (fst ?r)"
  show ?case
  proof (cases "cursor < length sig")
    case False
    then show ?thesis using "1.prems" by (auto simp: coalesce_loop.simps [of md cursor sig st])
  next
    case lt: True
    show ?thesis
    proof (cases "0 < ?w")
      case True
      have bound: "cursor + length (fst ?r) \<le> length sig"
        using x_width_bound [of cursor sig] lt by simp
      have rec: "coalesce_loop md (cursor + ?w) ?sig1 (snd ?r) = (sig', st')"
        using "1.prems" lt True by (simp add: coalesce_loop.simps [of md cursor sig st] Let_def)
      have IH: "length sig' = length ?sig1
          \<and> (\<forall>j<length ?sig1. (j < cursor + ?w \<or> ?sig1 ! j \<noteq> BConst Sx) \<longrightarrow> sig' ! j = ?sig1 ! j)
          \<and> (\<forall>j<length ?sig1. cursor + ?w \<le> j \<longrightarrow> sig' ! j \<noteq> BConst Sx)"
        using "1.IH"(1) [OF lt refl True refl rec] .
      have len1: "length ?sig1 = length sig" using bound by simp
      have nth1: "\<And>j. j < length sig \<Longrightarrow> ?sig1 ! j =
          (if cursor \<le> j \<and> j < cursor + ?w then fst ?r ! (j - cursor) else sig ! j)"
        using bound by (simp add: nth_sig_replace)
      have wire: "\<And>j. j < ?w \<Longrightarrow> fst ?r ! j \<noteq> BConst Sx"
        using add_free_source_bits [of _ "source_type md" "source_site md" ?w st]
        by (metis add_free_source_fst SigBit.distinct(1) nth_mem)
      have allx: "\<And>j. cursor \<le> j \<Longrightarrow> j < cursor + ?w \<Longrightarrow> sig ! j = BConst Sx"
        by (rule x_width_all_x)
      show ?thesis
      proof (intro conjI allI impI)
        show "length sig' = length sig" using IH len1 by simp
      next
        fix j
        assume j: "j < length sig" and c: "j < cursor \<or> sig ! j \<noteq> BConst Sx"
        have out: "\<not> (cursor \<le> j \<and> j < cursor + ?w)" using c allx by auto
        then have eq1: "?sig1 ! j = sig ! j" using nth1 [OF j] by auto
        have "j < cursor + ?w \<or> ?sig1 ! j \<noteq> BConst Sx" using c eq1 by auto
        then have "sig' ! j = ?sig1 ! j" using IH len1 j by auto
        then show "sig' ! j = sig ! j" using eq1 by simp
      next
        fix j
        assume j: "j < length sig" and c: "cursor \<le> j"
        show "sig' ! j \<noteq> BConst Sx"
        proof (cases "j < cursor + ?w")
          case True
          then have "sig' ! j = ?sig1 ! j" using IH len1 j by auto
          also have "\<dots> = fst ?r ! (j - cursor)" using nth1 [OF j] c True by simp
          finally show ?thesis using wire [of "j - cursor"] True c by simp
        next
          case False
          then show ?thesis using IH len1 j by simp
        qed
      qed
    next
      case False
      have rec: "coalesce_loop md (Suc cursor) sig st = (sig', st')"
        using "1.prems" lt False by (simp add: coalesce_loop.simps [of md cursor sig st] Let_def)
      have nx: "sig ! cursor \<noteq> BConst Sx" using x_width_zero [of sig cursor] False lt by simp
      have IH: "length sig' = length sig
          \<and> (\<forall>j<length sig. (j < Suc cursor \<or> sig ! j \<noteq> BConst Sx) \<longrightarrow> sig' ! j = sig ! j)
          \<and> (\<forall>j<length sig. Suc cursor \<le> j \<longrightarrow> sig' ! j \<noteq> BConst Sx)"
        using "1.IH"(2) [OF lt refl False rec] .
      show ?thesis
      proof (intro conjI allI impI)
        show "length sig' = length sig" using IH by simp
      next
        fix j
        assume "j < length sig" and "j < cursor \<or> sig ! j \<noteq> BConst Sx"
        then show "sig' ! j = sig ! j" using IH by auto
      next
        fix j
        assume j: "j < length sig" and c: "cursor \<le> j"
        show "sig' ! j \<noteq> BConst Sx"
        proof (cases "j = cursor")
          case True
          then show ?thesis using IH nx j by simp
        next
          case False
          then show ?thesis using IH j c by simp
        qed
      qed
    qed
  qed
qed

subsection \<open>Lemmas: the reference runs\<close>

lemma max_x_run_shift:
  assumes "max_x_run (drop n xs) k w" and "0 < k \<or> n = 0 \<or> \<not> is_x (xs ! (n - 1))"
  shows "max_x_run xs (n + k) w"
proof -
  from assms(1) have w: "0 < w" and len: "k + w \<le> length xs - n"
    and allx: "\<forall>j\<in>{k..<k + w}. is_x (drop n xs ! j)"
    and left: "k = 0 \<or> \<not> is_x (drop n xs ! (k - 1))"
    and right: "k + w = length xs - n \<or> \<not> is_x (drop n xs ! (k + w))"
    by (auto simp: max_x_run_def)
  have n: "n < length xs" using w len by arith
  have "\<forall>j\<in>{n + k..<n + k + w}. is_x (xs ! j)"
  proof
    fix j assume "j \<in> {n + k..<n + k + w}"
    then have "j - n \<in> {k..<k + w}" and "n \<le> j" by auto
    then show "is_x (xs ! j)" using allx n by (metis nth_drop le_add_diff_inverse less_imp_le_nat)
  qed
  moreover have "n + k = 0 \<or> \<not> is_x (xs ! (n + k - 1))"
    using left assms(2) n by (cases k) auto
  moreover have "n + k + w = length xs \<or> \<not> is_x (xs ! (n + k + w))"
    using right n by (auto simp: add.assoc)
  ultimately show ?thesis using w len n by (simp add: max_x_run_def)
qed

lemma max_x_run_unshift:
  assumes "max_x_run xs (n + k) w"
  shows "max_x_run (drop n xs) k w"
proof -
  from assms have w: "0 < w" and len: "n + k + w \<le> length xs"
    and allx: "\<forall>j\<in>{n + k..<n + k + w}. is_x (xs ! j)"
    and left: "n + k = 0 \<or> \<not> is_x (xs ! (n + k - 1))"
    and right: "n + k + w = length xs \<or> \<not> is_x (xs ! (n + k + w))"
    by (auto simp: max_x_run_def)
  have "\<forall>j\<in>{k..<k + w}. is_x (drop n xs ! j)"
  proof
    fix j assume "j \<in> {k..<k + w}"
    then have "n + j \<in> {n + k..<n + k + w}" by auto
    then show "is_x (drop n xs ! j)" using allx len by simp
  qed
  moreover have "k = 0 \<or> \<not> is_x (drop n xs ! (k - 1))"
    using left len by (cases k) auto
  moreover have "k + w = length (drop n xs) \<or> \<not> is_x (drop n xs ! (k + w))"
    using right len by (auto simp: add.assoc)
  ultimately show ?thesis using w len by (simp add: max_x_run_def)
qed

lemma takeWhile_x_run:
  assumes "is_x b"
  shows "max_x_run (b # bs) 0 (length (takeWhile is_x (b # bs)))"
proof -
  let ?w = "length (takeWhile is_x (b # bs))"
  have "\<forall>j\<in>{0..<?w}. is_x ((b # bs) ! j)"
    by (metis atLeastLessThan_iff nth_mem set_takeWhileD takeWhile_nth)
  moreover have "?w = length (b # bs) \<or> \<not> is_x ((b # bs) ! ?w)"
    using nth_length_takeWhile [of is_x "b # bs"] length_takeWhile_le [of is_x "b # bs"]
    by (metis le_neq_implies_less)
  ultimately show ?thesis
    using assms length_takeWhile_le [of is_x "b # bs"] by (simp add: max_x_run_def)
qed

text \<open>A maximal run that starts at \<open>0\<close> is the run \<open>takeWhile\<close> finds.\<close>

lemma max_x_run_0:
  assumes "max_x_run xs 0 w"
  shows "w = length (takeWhile is_x xs)"
proof -
  from assms have all: "\<forall>j<w. is_x (xs ! j)" and len: "w \<le> length xs"
    and stop: "w = length xs \<or> \<not> is_x (xs ! w)"
    by (auto simp: max_x_run_def)
  have "takeWhile is_x xs = take w xs"
  proof (rule takeWhile_eq_take_P_nth)
    show "\<And>i. i < w \<Longrightarrow> i < length xs \<Longrightarrow> is_x (xs ! i)" using all by simp
    show "w < length xs \<Longrightarrow> \<not> is_x (xs ! w)" using stop by auto
  qed
  then show ?thesis using len by simp
qed

lemma x_runs_sound:
  "(s, w) \<in> set (x_runs i xs) \<Longrightarrow> i \<le> s \<and> max_x_run xs (s - i) w"
proof (induction i xs rule: x_runs.induct)
  case (1 i)
  then show ?case by simp
next
  case (2 i b bs)
  let ?xs = "b # bs"
  let ?w0 = "length (takeWhile is_x ?xs)"
  show ?case
  proof (cases "is_x b")
    case True
    have run0: "max_x_run ?xs 0 ?w0" using True by (rule takeWhile_x_run)
    from "2.prems" True
    have "(s, w) = (i, ?w0) \<or> (s, w) \<in> set (x_runs (i + ?w0) (drop ?w0 ?xs))"
      by (simp add: Let_def)
    then show ?thesis
    proof
      assume "(s, w) = (i, ?w0)"
      then have s: "s = i" and w: "w = ?w0" by simp_all
      show ?thesis using run0 by (simp only: s w diff_self_eq_0 le_refl simp_thms)
    next
      assume rest: "(s, w) \<in> set (x_runs (i + ?w0) (drop ?w0 ?xs))"
      have IH: "i + ?w0 \<le> s \<and> max_x_run (drop ?w0 ?xs) (s - (i + ?w0)) w"
        using "2.IH"(1) [OF True refl rest] .
      have "0 < s - (i + ?w0)"
      proof (rule ccontr)
        assume "\<not> 0 < s - (i + ?w0)"
        then have "max_x_run (drop ?w0 ?xs) 0 w" using IH by simp
        then have "is_x (drop ?w0 ?xs ! 0)" and "?w0 < length ?xs"
          by (auto simp: max_x_run_def)
        moreover have "?w0 = length ?xs \<or> \<not> is_x (?xs ! ?w0)"
          using run0 unfolding max_x_run_def add_0 by blast
        ultimately show False by simp
      qed
      then have "max_x_run ?xs (?w0 + (s - (i + ?w0))) w"
        using IH by (intro max_x_run_shift) auto
      then show ?thesis using IH by (simp add: algebra_simps)
    qed
  next
    case False
    from "2.prems" False have rest: "(s, w) \<in> set (x_runs (Suc i) bs)" by simp
    have IH: "Suc i \<le> s \<and> max_x_run bs (s - Suc i) w"
      using "2.IH"(2) [OF False rest] .
    then have "max_x_run (drop 1 ?xs) (s - Suc i) w" by simp
    then have run: "max_x_run ?xs (1 + (s - Suc i)) w"
      using False by (intro max_x_run_shift) auto
    have eq: "1 + (s - Suc i) = s - i" using IH by arith
    from run have "max_x_run ?xs (s - i) w" by (simp only: eq)
    then show ?thesis using IH by simp
  qed
qed

lemma x_runs_complete:
  "max_x_run xs s w \<Longrightarrow> (i + s, w) \<in> set (x_runs i xs)"
proof (induction i xs arbitrary: s rule: x_runs.induct)
  case (1 i)
  then show ?case by (auto simp: max_x_run_def)
next
  case (2 i b bs)
  let ?xs = "b # bs"
  let ?w0 = "length (takeWhile is_x ?xs)"
  show ?case
  proof (cases "is_x b")
    case True
    show ?thesis
    proof (cases "s = 0")
      case True
      then have "max_x_run ?xs 0 w" using "2.prems" by simp
      then have "w = ?w0" by (rule max_x_run_0)
      with True \<open>is_x b\<close> show ?thesis by (simp add: Let_def)
    next
      case False
      have allx0: "\<forall>j<?w0. is_x (?xs ! j)"
        by (metis nth_mem set_takeWhileD takeWhile_nth)
      have "\<not> is_x (?xs ! (s - 1))" using "2.prems" False by (simp add: max_x_run_def)
      then have "?w0 \<le> s - 1" using allx0 by (meson not_le)
      then have s: "s = ?w0 + (s - ?w0)" and pos: "?w0 \<le> s" by arith+
      have "max_x_run (drop ?w0 ?xs) (s - ?w0) w"
        using "2.prems" s by (intro max_x_run_unshift) simp
      then have "(i + ?w0 + (s - ?w0), w) \<in> set (x_runs (i + ?w0) (drop ?w0 ?xs))"
        using "2.IH"(1) [OF \<open>is_x b\<close> refl] by blast
      then show ?thesis using \<open>is_x b\<close> pos by (simp add: Let_def)
    qed
  next
    case False
    have "s \<noteq> 0"
    proof
      assume "s = 0"
      with "2.prems" have "0 < w" and "\<forall>j\<in>{0..<w}. is_x (?xs ! j)"
        by (simp_all add: max_x_run_def)
      then have "is_x (?xs ! 0)" by (auto dest: bspec [where x = 0])
      then show False using False by simp
    qed
    then have "max_x_run (drop 1 ?xs) (s - 1) w"
      using "2.prems" by (intro max_x_run_unshift) simp
    then have "(Suc i + (s - 1), w) \<in> set (x_runs (Suc i) bs)"
      using "2.IH"(2) [OF False] by simp
    then show ?thesis using False \<open>s \<noteq> 0\<close> by simp
  qed
qed

subsection \<open>Lemmas: the module around the loop\<close>

lemma apply_runs_frame:
  "apply_runs md rs sig st = (sig', st') \<Longrightarrow>
   mod_procs (snd st') = mod_procs (snd st) \<and> mod_conns (snd st') = mod_conns (snd st)
   \<and> mod_name (snd st') = mod_name (snd st)"
proof (induction rs arbitrary: sig st)
  case Nil
  then show ?case by simp
next
  case (Cons r rs)
  obtain s w where "r = (s, w)" by fastforce
  with Cons show ?case by (fastforce simp: Let_def add_free_source_def)
qed

lemma coalesce_loop_state:
  assumes "coalesce_loop md cursor sig (idx, m) = (sig', (idx', m'))"
  shows "idx' = idx + 2 * length (x_runs cursor (drop cursor sig))"
    and "mod_cells m' = mod_cells m @ run_cells md idx (map snd (x_runs cursor (drop cursor sig)))"
    and "mod_wires m' = mod_wires m @ run_wires idx (map snd (x_runs cursor (drop cursor sig)))"
    and "mod_procs m' = mod_procs m" and "mod_conns m' = mod_conns m"
  using apply_runs_state [of md _ sig idx m sig' idx' m'] apply_runs_frame [of md _ sig "(idx, m)" sig' "(idx', m')"]
    assms by (simp_all add: coalesce_loop_runs)

lemma coalesce_loop_loc:
  assumes "coalesce_loop md cursor sig (idx, m) = (sig', (idx', m'))" and "loc_valid m l"
  shows "loc_valid m' l \<and> sig_at m' l = sig_at m l"
  using assms(2) coalesce_loop_state [OF assms(1)]
  by (cases l) (auto simp: nth_append)

lemma coalesce_sig_at:
  assumes "loc_valid m l" and "loc_valid m l'"
  shows "loc_valid (snd (coalesce_sig md (idx, m) l)) l'
       \<and> sig_at (snd (coalesce_sig md (idx, m) l)) l' =
           (if l' = l then fst (coalesce_loop md 0 (sig_at m l) (idx, m)) else sig_at m l')"
proof -
  obtain sig' idx' m' where r: "coalesce_loop md 0 (sig_at m l) (idx, m) = (sig', (idx', m'))"
    by (metis prod.exhaust)
  have l: "loc_valid m' l" using coalesce_loop_loc [OF r assms(1)] by simp
  have l': "loc_valid m' l' \<and> sig_at m' l' = sig_at m l'" using coalesce_loop_loc [OF r assms(2)] .
  show ?thesis using l l' r by (simp add: coalesce_sig_def sig_at_put)
qed

lemma coalesce_loop_coalesced:
  "coalesced sig (fst (coalesce_loop md 0 sig st))"
proof -
  obtain sig' st' where r: "coalesce_loop md 0 sig st = (sig', st')" by (metis prod.exhaust)
  have "length sig' = length sig \<and> (\<forall>j<length sig. (j < 0 \<or> sig ! j \<noteq> BConst Sx) \<longrightarrow> sig' ! j = sig ! j)
       \<and> (\<forall>j<length sig. 0 \<le> j \<longrightarrow> sig' ! j \<noteq> BConst Sx)"
    using r by (rule coalesce_loop_sig)
  then show ?thesis using r by (auto simp: coalesced_def in_set_conv_nth)
qed

lemma coalesce_all_post:
  assumes "coalesce_all md ls (idx, m) = (idx', m')" and "distinct ls"
    and "\<forall>l\<in>set ls. loc_valid m l" and "loc_valid m l"
  shows "loc_valid m' l \<and> (if l \<in> set ls then coalesced (sig_at m l) (sig_at m' l)
                             else sig_at m' l = sig_at m l)"
  using assms
proof (induction ls arbitrary: idx m)
  case Nil
  then show ?case by (simp add: coalesce_all_def)
next
  case (Cons l1 ls)
  obtain idx1 m1 where st1: "coalesce_sig md (idx, m) l1 = (idx1, m1)" by (metis prod.exhaust)
  have rest: "coalesce_all md ls (idx1, m1) = (idx', m')"
    using Cons.prems(1) st1 by (simp add: coalesce_all_def)
  have v1: "loc_valid m l1" using Cons.prems(3) by simp
  have at1: "\<And>l'. loc_valid m l' \<Longrightarrow> loc_valid m1 l' \<and>
      sig_at m1 l' = (if l' = l1 then fst (coalesce_loop md 0 (sig_at m l1) (idx, m)) else sig_at m l')"
    using coalesce_sig_at [OF v1] st1 by (metis snd_conv)
  have IH: "loc_valid m' l \<and> (if l \<in> set ls then coalesced (sig_at m1 l) (sig_at m' l)
                                 else sig_at m' l = sig_at m1 l)"
  proof -
    have vls: "\<forall>l'\<in>set ls. loc_valid m1 l'" using at1 Cons.prems(3) by simp
    have vl: "loc_valid m1 l" using at1 Cons.prems(4) by simp
    show ?thesis using Cons.IH [OF rest _ vls vl] Cons.prems(2) by simp
  qed
  show ?case
  proof (cases "l = l1")
    case True
    then have "l \<notin> set ls" using Cons.prems(2) by simp
    then show ?thesis using IH True at1 [OF Cons.prems(4)] coalesce_loop_coalesced by simp
  next
    case False
    have "sig_at m1 l = sig_at m l" using at1 [OF Cons.prems(4)] False by simp
    then show ?thesis using IH False by (cases "l \<in> set ls") simp_all
  qed
qed

lemma x_runs_maximal: "set (x_runs 0 xs) = {(s, w). max_x_run xs s w}"
proof
  show "set (x_runs 0 xs) \<subseteq> {(s, w). max_x_run xs s w}"
    using x_runs_sound [of _ _ 0 xs] by auto
  show "{(s, w). max_x_run xs s w} \<subseteq> set (x_runs 0 xs)"
    using x_runs_complete [of xs _ _ 0] by auto
qed

subsection \<open>Properties\<close>

text \<open>C23: the inner loop of the coalescer, started at width 0, returns the
  length of the run of \<open>x\<close> bits at the cursor.\<close>

theorem x_width_run_length:
  "x_width sig cursor 0 = length (takeWhile is_x (drop cursor sig))"
  by (simp add: x_width_takeWhile)

text \<open>C7: the cursor loop on one signal spec is the reference: it creates one
  source per run of \<open>x\<close> bits listed by \<open>x_runs\<close>, left to right, and splices
  its output over the run; and \<open>x_runs\<close> lists exactly the maximal runs of
  \<open>x\<close> bits.\<close>

theorem coalesce_loop_refines:
  "coalesce_loop md 0 sig st = apply_runs md (x_runs 0 sig) sig st
   \<and> set (x_runs 0 sig) = {(s, w). max_x_run sig s w}"
  by (simp add: coalesce_loop_runs x_runs_maximal)

theorem coalesce_loop_refines_witness:
  "coalesce_loop MODE_ANYSEQ 0 ex_sig (5, ex_module) = apply_runs MODE_ANYSEQ [(0, 2), (3, 1)] ex_sig (5, ex_module)
   \<and> max_x_run ex_sig 0 2 \<and> max_x_run ex_sig 3 1"
proof -
  have e: "coalesce_loop MODE_ANYSEQ 0 ex_sig (5, ex_module) = apply_runs MODE_ANYSEQ (x_runs 0 ex_sig) ex_sig (5, ex_module)
     \<and> set (x_runs 0 ex_sig) = {(s, w). max_x_run ex_sig s w}"
    by (rule coalesce_loop_refines)
  have xr: "x_runs 0 ex_sig = [(0, 2), (3, 1)]" unfolding ex_sig_def by code_simp
  show ?thesis using e unfolding xr by auto
qed

text \<open>C24: the sources created for one signal spec: one cell and one wire per
  maximal run, with the run's width, named from the counter on, which advances
  by two per source.\<close>

theorem coalesce_loop_sources:
  assumes "coalesce_loop md 0 sig (idx, m) = (sig', (idx', m'))"
  shows "mod_cells m' = mod_cells m @ run_cells md idx (map snd (x_runs 0 sig))
       \<and> mod_wires m' = mod_wires m @ run_wires idx (map snd (x_runs 0 sig))
       \<and> idx' = idx + 2 * length (x_runs 0 sig)"
  using coalesce_loop_state [OF assms] by simp

theorem coalesce_loop_sources_witness:
  "mod_cells (snd (snd (coalesce_loop MODE_ANYSEQ 0 ex_sig (5, ex_module)))) =
     mod_cells ex_module @ run_cells MODE_ANYSEQ 5 [2, 1]
   \<and> fst (snd (coalesce_loop MODE_ANYSEQ 0 ex_sig (5, ex_module))) = 9"
proof -
  obtain sig' idx' m' where r: "coalesce_loop MODE_ANYSEQ 0 ex_sig (5, ex_module) = (sig', (idx', m'))"
    by (metis prod.exhaust)
  have c: "mod_cells m' = mod_cells ex_module @ run_cells MODE_ANYSEQ 5 (map snd (x_runs 0 ex_sig))
       \<and> mod_wires m' = mod_wires ex_module @ run_wires 5 (map snd (x_runs 0 ex_sig))
       \<and> idx' = 5 + 2 * length (x_runs 0 ex_sig)"
    by (rule coalesce_loop_sources [OF r])
  have xr: "x_runs 0 ex_sig = [(0, 2), (3, 1)]" unfolding ex_sig_def by code_simp
  show ?thesis using r c unfolding xr by simp
qed

text \<open>C10: after coalescing every recorded location of a module, each of its
  signal specs keeps its width and every bit that was not \<open>x\<close>, and holds no
  \<open>x\<close> bit.\<close>

theorem coalesce_all_resolves:
  assumes "coalesce_all md (sig_locs m) (idx, m) = (idx', m')" and "loc_valid m l"
  shows "length (sig_at m' l) = length (sig_at m l)
       \<and> (\<forall>j<length (sig_at m l). sig_at m l ! j \<noteq> BConst Sx \<longrightarrow> sig_at m' l ! j = sig_at m l ! j)
       \<and> BConst Sx \<notin> set (sig_at m' l)"
  using coalesce_all_post [OF assms(1) distinct_sig_locs _ assms(2)] assms(2)
  by (simp add: coalesced_def)

theorem coalesce_all_resolves_witness:
  "loc_valid ex_module (LocCell 0 0)
   \<and> BConst Sx \<notin> set (sig_at (snd (coalesce_all MODE_ANYCONST (sig_locs ex_module) (0, ex_module)))
                                 (LocCell 0 0))"
proof -
  obtain idx' m' where r: "coalesce_all MODE_ANYCONST (sig_locs ex_module) (0, ex_module) = (idx', m')"
    by (metis prod.exhaust)
  have v: "loc_valid ex_module (LocCell 0 0)" by (simp add: ex_module_def)
  have "BConst Sx \<notin> set (sig_at m' (LocCell 0 0))"
    using coalesce_all_resolves [OF r v] by simp
  then have "BConst Sx \<notin> set (sig_at (snd (coalesce_all MODE_ANYCONST (sig_locs ex_module) (0, ex_module)))
                                  (LocCell 0 0))"
    by (simp add: r)
  with v show ?thesis by (rule conjI)
qed

end
