(* ===== verification/Undriven.thy ===== *)
theory Undriven
  imports Coalesce
begin

text \<open>
  The \<open>-undriven\<close> block of \<open>SetundefPass::execute\<close>
  (\<open>src/passes/cmds/setundef.cc\<close>, lines 186--219) and the kernel helpers it uses:
  \<open>SigMap\<close> (\<open>kernel/sigtools.h\<close>) as the representative function of its
  union-find, \<open>SigPool\<close> as the list of its bits, \<open>CellTypes\<close> as a table of
  known cell types and their output ports, and \<open>SigSpec::chunks()\<close>. The block
  collects the wire bits that no input port and no driving cell port reaches,
  splits them into chunks and drives each chunk with fresh bits or a new
  free-variable source.
\<close>

subsection \<open>\<open>SigMap\<close>\<close>

definition is_wire_bit :: "SigBit \<Rightarrow> bool" where
  "is_wire_bit b = (case b of BWire _ _ \<Rightarrow> True | BConst _ \<Rightarrow> False)"

text \<open>The union-find of a \<open>SigMap\<close> seen through its \<open>find\<close>: every bit is
  mapped to the representative of its class; a bit never added is its own
  representative.\<close>

type_synonym sigmap = "SigBit \<Rightarrow> SigBit"

text \<open>\<open>SigMap::add(from, to)\<close> on one pair of bits: when one of them is a
  wire bit the two classes are merged (\<open>imerge\<close> makes the root of \<open>to\<close>'s
  class the root), then a constant among the two bits is promoted to be the
  representative (\<open>ipromote\<close>, \<open>from\<close> first).\<close>

definition sigmap_add_bit :: "sigmap \<Rightarrow> SigBit \<Rightarrow> SigBit \<Rightarrow> sigmap" where
  "sigmap_add_bit sm f t =
     (if is_wire_bit f \<or> is_wire_bit t then
        (let rf = sm f; rt = sm t;
             r = (if \<not> is_wire_bit f then f else if \<not> is_wire_bit t then t else rt)
         in (\<lambda>b. if sm b = rf \<or> sm b = rt then r else sm b))
      else sm)"

text \<open>\<open>SigMap::add(from, to)\<close> bit by bit; the widths agree on every module
  connection (\<open>Module::connect\<close> asserts it).\<close>

definition sigmap_add :: "sigmap \<Rightarrow> SigSpec \<times> SigSpec \<Rightarrow> sigmap" where
  "sigmap_add sm c = fold (\<lambda>(f, t) sm. sigmap_add_bit sm f t) (zip (fst c) (snd c)) sm"

text \<open>\<open>SigMap sigmap(module)\<close>: every module connection in turn.\<close>

definition sigmap_of :: "Module \<Rightarrow> sigmap" where
  "sigmap_of m = fold (\<lambda>c sm. sigmap_add sm c) (mod_conns m) id"

subsection \<open>\<open>SigPool\<close> and \<open>CellTypes\<close>\<close>

text \<open>A \<open>SigPool\<close> holds wire bits only: \<open>add\<close> and \<open>del\<close> skip constant
  bits. The list keeps the bits in insertion order, which stands for the
  pool's iteration order in \<open>export_all\<close>.\<close>

definition pool_add :: "SigSpec \<Rightarrow> SigSpec \<Rightarrow> SigSpec" where
  "pool_add p sig = fold (\<lambda>b p. if is_wire_bit b \<and> b \<notin> set p then p @ [b] else p) sig p"

definition pool_del :: "SigSpec \<Rightarrow> SigSpec \<Rightarrow> SigSpec" where
  "pool_del p sig = filter (\<lambda>b. b \<notin> set (filter is_wire_bit sig)) p"

text \<open>\<open>CellTypes ct(design)\<close>: the known cell types (internal cells and the
  design's modules) with their output ports.\<close>

type_synonym celltypes = "(string \<times> string list) list"

definition cell_known :: "celltypes \<Rightarrow> string \<Rightarrow> bool" where
  "cell_known ct ty \<longleftrightarrow> map_of ct ty \<noteq> None"

definition cell_output :: "celltypes \<Rightarrow> string \<Rightarrow> string \<Rightarrow> bool" where
  "cell_output ct ty port = (case map_of ct ty of Some outs \<Rightarrow> port \<in> set outs | None \<Rightarrow> False)"

subsection \<open>Chunks\<close>

text \<open>\<open>SigSpec::chunks()\<close>: consecutive bits of one wire at consecutive
  offsets, and consecutive constant bits, form one chunk.\<close>

fun bit_follows :: "SigBit \<Rightarrow> SigBit \<Rightarrow> bool" where
  "bit_follows (BWire n k) (BWire n' k') = (n' = n \<and> k' = Suc k)"
| "bit_follows (BConst _) (BConst _) = True"
| "bit_follows _ _ = False"

fun chunks :: "SigSpec \<Rightarrow> SigSpec list" where
  "chunks [] = []"
| "chunks (b # bs) =
     (case chunks bs of
        [] \<Rightarrow> [[b]]
      | c # cs \<Rightarrow> if bit_follows b (hd c) then (b # c) # cs else [b] # c # cs)"

subsection \<open>The \<open>-undriven\<close> block\<close>

text \<open>Lines 191--207: the representatives of all wire bits, less those of
  input ports, less those of the ports of unknown cells and the output ports
  of known cells.\<close>

definition undriven_bits :: "celltypes \<Rightarrow> Module \<Rightarrow> SigSpec" where
  "undriven_bits ct m =
     (let sm = sigmap_of m;
          p0 = fold (\<lambda>wr p. pool_add p (map sm (wire_sig wr))) (mod_wires m) [];
          p1 = fold (\<lambda>wr p. if port_input wr then pool_del p (map sm (wire_sig wr)) else p)
                    (mod_wires m) p0
      in fold (\<lambda>c p. fold (\<lambda>(port, sig) p.
                             if \<not> cell_known ct (cell_type c) \<or> cell_output ct (cell_type c) port
                             then pool_del p (map sm sig) else p) (cell_conns c) p)
              (mod_cells m) p1)"

definition undriven_site :: "Mode \<Rightarrow> string" where
  "undriven_site md =
     (if md = MODE_ANYSEQ then ''setundef.cc:211:execute'' else ''setundef.cc:213:execute'')"

text \<open>Lines 208--218: each chunk is connected to a new \<open>$anyseq\<close> or
  \<open>$anyconst\<close> source of its width, or to \<open>c.width\<close> bits of \<open>next_bit()\<close>.\<close>

fun drive_chunks :: "Worker \<Rightarrow> SigSpec list \<Rightarrow> mstate \<Rightarrow> Fault + (Worker \<times> mstate)" where
  "drive_chunks w [] st = Inr (w, st)"
| "drive_chunks w (c # cs) st =
     (if free_mode (next_bit_mode w) then
        (let r = add_free_source (source_type (next_bit_mode w)) (undriven_site (next_bit_mode w))
                                 (length c) st
         in drive_chunks w cs (fst (snd r), module_connect (snd (snd r)) (c, fst r)))
      else sbind (next_bits (length c) w)
             (\<lambda>(bits, w'). drive_chunks w' cs (fst st, module_connect (snd st) (c, map BConst bits))))"

definition msg_procs :: string where
  "msg_procs = ''The '' @ [CHR 0x27] @ ''setundef'' @ [CHR 0x27]
     @ '' command can'' @ [CHR 0x27] @ ''t operate in -undriven mode on modules with processes. Run ''
     @ [CHR 0x27] @ ''proc'' @ [CHR 0x27] @ '' first.''"

definition undriven_step :: "celltypes \<Rightarrow> Worker \<Rightarrow> mstate \<Rightarrow> Fault + (Worker \<times> mstate)" where
  "undriven_step ct w st =
     (if mod_procs (snd st) \<noteq> [] then Inl (FatalError msg_procs)
      else drive_chunks w (chunks (undriven_bits ct (snd st))) st)"

subsection \<open>Vocabulary of the lemmas\<close>

text \<open>A \<open>SigMap\<close> maps each representative to itself, and one \<open>SigMap\<close> is
  coarser than another when it joins at least the bits the other joins.\<close>

definition sm_idem :: "sigmap \<Rightarrow> bool" where
  "sm_idem sm \<longleftrightarrow> (\<forall>b. sm (sm b) = sm b)"

definition sm_coarser :: "sigmap \<Rightarrow> sigmap \<Rightarrow> bool" where
  "sm_coarser sm sm' \<longleftrightarrow> (\<forall>b c. sm b = sm c \<longrightarrow> sm' b = sm' c)"

text \<open>The signal specs a cell drives in the sense of line 204: every port of
  an unknown cell, the output ports of a known one.\<close>

definition driven_sigs :: "celltypes \<Rightarrow> Module \<Rightarrow> SigSpec list" where
  "driven_sigs ct m =
     concat (map (\<lambda>c. map snd (filter (\<lambda>(port, _).
                 \<not> cell_known ct (cell_type c) \<or> cell_output ct (cell_type c) port) (cell_conns c)))
               (mod_cells m))"

text \<open>The cells that free-variable sources of the widths \<open>ws\<close> add at lines
  211 and 213, their names drawn from counter \<open>idx\<close> on.\<close>

fun chunk_cells :: "Mode \<Rightarrow> nat \<Rightarrow> nat list \<Rightarrow> Cell list" where
  "chunk_cells md idx [] = []"
| "chunk_cells md idx (w # ws) =
     free_cell (source_type md) (undriven_site md) idx w # chunk_cells md (Suc (Suc idx)) ws"

text \<open>The module of the undriven-detection example of the specification: an
  input \<open>a\<close> of width 4, a wire \<open>b\<close> of width 2 driven by a known cell, and an
  unconnected wire \<open>c\<close> of width 3.\<close>

definition ex_wire :: "string \<Rightarrow> nat \<Rightarrow> bool \<Rightarrow> Wire" where
  "ex_wire n k inp =
     \<lparr>wire_name = pub_id n, wire_width = k, port_input = inp, port_output = False, wire_init = None\<rparr>"

definition ex_undriven :: Module where
  "ex_undriven =
     \<lparr>mod_name = pub_id ''top'',
      mod_wires = [ex_wire ''a'' 4 True, ex_wire ''b'' 2 False, ex_wire ''c'' 3 False],
      mod_cells = [\<lparr>cell_name = pub_id ''u'', cell_type = ''$pair'', cell_params = [],
                    cell_conns = [(pub_id ''Y'', [BWire (pub_id ''b'') 0, BWire (pub_id ''b'') 1])]\<rparr>],
      mod_procs = [], mod_conns = []\<rparr>"

definition ex_ct :: celltypes where
  "ex_ct = [(''$pair'', [pub_id ''Y''])]"

subsection \<open>Lemmas: \<open>SigMap\<close>\<close>

lemma sigmap_add_bit_idem:
  assumes "sm_idem sm" shows "sm_idem (sigmap_add_bit sm f t)"
  using assms unfolding sm_idem_def sigmap_add_bit_def Let_def by auto

lemma sigmap_add_bit_joins:
  "is_wire_bit f \<or> is_wire_bit t \<Longrightarrow> sigmap_add_bit sm f t f = sigmap_add_bit sm f t t"
  unfolding sigmap_add_bit_def Let_def by auto

lemma sigmap_add_bit_keeps:
  "sm b = sm c \<Longrightarrow> sigmap_add_bit sm f t b = sigmap_add_bit sm f t c"
  unfolding sigmap_add_bit_def Let_def by auto

lemma sigmap_add_idem: "sm_idem sm \<Longrightarrow> sm_idem (sigmap_add sm c)"
  unfolding sigmap_add_def
  by (rule fold_pred [where P = sm_idem]) (auto simp: sigmap_add_bit_idem split: prod.splits)

lemma sigmap_of_idem: "sm_idem (sigmap_of m)"
  unfolding sigmap_of_def
  by (rule fold_pred [where P = sm_idem]) (simp_all add: sigmap_add_idem, simp add: sm_idem_def)

lemma sm_coarser_refl [simp]: "sm_coarser sm sm"
  by (simp add: sm_coarser_def)

lemma sm_coarser_trans: "sm_coarser a b \<Longrightarrow> sm_coarser b c \<Longrightarrow> sm_coarser a c"
  unfolding sm_coarser_def by blast

lemma sigmap_add_bit_coarser: "sm_coarser sm (sigmap_add_bit sm f t)"
  unfolding sm_coarser_def using sigmap_add_bit_keeps by blast

lemma fold_coarser:
  assumes "\<And>x sm. sm_coarser sm (g x sm)"
  shows "sm_coarser sm (fold g xs sm)"
proof (induction xs arbitrary: sm)
  case Nil
  then show ?case by simp
next
  case (Cons x xs)
  show ?case using sm_coarser_trans [OF assms Cons.IH] by simp
qed

lemma sigmap_add_coarser: "sm_coarser sm (sigmap_add sm c)"
  unfolding sigmap_add_def by (rule fold_coarser) (auto simp: sigmap_add_bit_coarser split: prod.splits)

text \<open>A fold of coarsening steps keeps two bits joined once one step joins
  them.\<close>

lemma fold_coarser_joins:
  assumes "x \<in> set xs" and "\<And>sm. g x sm b = g x sm d" and "\<And>y sm. sm_coarser sm (g y sm)"
  shows "fold g xs sm b = fold g xs sm d"
  using assms(1)
proof (induction xs arbitrary: sm)
  case Nil
  then show ?case by simp
next
  case (Cons y xs)
  show ?case
  proof (cases "x \<in> set xs")
    case True
    then show ?thesis using Cons.IH by simp
  next
    case False
    then have y: "y = x" using Cons.prems by simp
    have "sm_coarser (g x sm) (fold g xs (g x sm))" by (rule fold_coarser) (rule assms(3))
    then have "fold g xs (g x sm) b = fold g xs (g x sm) d"
      using assms(2) [of sm] unfolding sm_coarser_def by blast
    then show ?thesis using y by simp
  qed
qed

lemma sigmap_add_joins:
  assumes "i < length (fst c)" "i < length (snd c)" "is_wire_bit (fst c ! i) \<or> is_wire_bit (snd c ! i)"
  shows "sigmap_add sm c (fst c ! i) = sigmap_add sm c (snd c ! i)"
  unfolding sigmap_add_def
proof (rule fold_coarser_joins)
  show "(fst c ! i, snd c ! i) \<in> set (zip (fst c) (snd c))"
    using assms(1,2) by (auto simp: set_zip)
next
  fix sm'
  show "(\<lambda>(f, t) sm. sigmap_add_bit sm f t) (fst c ! i, snd c ! i) sm' (fst c ! i) =
        (\<lambda>(f, t) sm. sigmap_add_bit sm f t) (fst c ! i, snd c ! i) sm' (snd c ! i)"
    unfolding case_prod_conv by (rule sigmap_add_bit_joins [OF assms(3)])
next
  fix y sm'
  show "sm_coarser sm' ((\<lambda>(f, t) sm. sigmap_add_bit sm f t) y sm')"
    by (cases y) (simp only: case_prod_conv sigmap_add_bit_coarser)
qed

lemma sigmap_of_joins:
  assumes "c \<in> set (mod_conns m)" "i < length (fst c)" "i < length (snd c)"
    "is_wire_bit (fst c ! i) \<or> is_wire_bit (snd c ! i)"
  shows "sigmap_of m (fst c ! i) = sigmap_of m (snd c ! i)"
  unfolding sigmap_of_def
  by (rule fold_coarser_joins [OF assms(1)]) (rule sigmap_add_joins [OF assms(2-4)], rule sigmap_add_coarser)

subsection \<open>Lemmas: \<open>SigPool\<close> and the undriven bits\<close>

lemma set_pool_add: "set (pool_add p sig) = set p \<union> {b \<in> set sig. is_wire_bit b}"
  unfolding pool_add_def by (induction sig arbitrary: p) auto

lemma distinct_pool_add: "distinct p \<Longrightarrow> distinct (pool_add p sig)"
  unfolding pool_add_def by (induction sig arbitrary: p) auto

lemma set_pool_del: "set (pool_del p sig) = set p - {b \<in> set sig. is_wire_bit b}"
  unfolding pool_del_def by auto

lemma distinct_pool_del: "distinct p \<Longrightarrow> distinct (pool_del p sig)"
  unfolding pool_del_def by simp

lemma undriven_bits_set:
  "set (undriven_bits ct m) =
     {b \<in> sigmap_of m ` set (concat (map wire_sig (mod_wires m))). is_wire_bit b}
     - sigmap_of m ` set (concat (map wire_sig (filter port_input (mod_wires m))))
     - sigmap_of m ` set (concat (driven_sigs ct m))"
proof -
  let ?sm = "sigmap_of m"
  let ?ok = "\<lambda>c port. \<not> cell_known ct (cell_type c) \<or> cell_output ct (cell_type c) port"
  let ?p0 = "fold (\<lambda>wr p. pool_add p (map ?sm (wire_sig wr))) (mod_wires m) []"
  let ?p1 = "fold (\<lambda>wr p. if port_input wr then pool_del p (map ?sm (wire_sig wr)) else p) (mod_wires m) ?p0"
  have s0: "set ?p0 = {b \<in> ?sm ` set (concat (map wire_sig (mod_wires m))). is_wire_bit b}"
    by (subst fold_set_union [where S = "\<lambda>wr. {b \<in> set (map ?sm (wire_sig wr)). is_wire_bit b}"])
       (auto simp: set_pool_add)
  have s1: "set ?p1 = set ?p0 - {b \<in> ?sm ` set (concat (map wire_sig (filter port_input (mod_wires m)))). is_wire_bit b}"
    by (subst fold_set_minus [where S = "\<lambda>wr. if port_input wr then {b \<in> set (map ?sm (wire_sig wr)). is_wire_bit b} else {}"])
       (auto simp: set_pool_del)
  let ?S = "\<lambda>c. \<Union>(port, sig)\<in>set (cell_conns c).
              if ?ok c port then {b \<in> ?sm ` set sig. is_wire_bit b} else {}"
  have inner: "set (fold (\<lambda>(port, sig) p. if ?ok c port then pool_del p (map ?sm sig) else p) (cell_conns c) p)
      = set p - ?S c" for c p
    by (rule fold_set_minus) (auto simp: set_pool_del split: if_splits)
  have s2: "set (undriven_bits ct m) = set ?p1 - (\<Union>c\<in>set (mod_cells m). ?S c)"
    unfolding undriven_bits_def Let_def by (rule fold_set_minus) (rule inner)
  have s3: "(\<Union>c\<in>set (mod_cells m). ?S c) = {b \<in> ?sm ` set (concat (driven_sigs ct m)). is_wire_bit b}"
    unfolding driven_sigs_def by (auto split: if_splits; force)
  show ?thesis unfolding s3 s2 s1 s0 by blast
qed

lemma undriven_bits_distinct: "distinct (undriven_bits ct m)"
  unfolding undriven_bits_def Let_def
  by (intro fold_pred [where P = distinct]) (auto simp: distinct_pool_add distinct_pool_del split: prod.splits)

subsection \<open>Lemmas: chunks\<close>

lemma chunks_concat [simp]: "concat (chunks s) = s"
  by (induction s rule: chunks.induct) (auto split: list.splits)

lemma chunks_nonempty: "c \<in> set (chunks s) \<Longrightarrow> c \<noteq> []"
  by (induction s arbitrary: c rule: chunks.induct) (auto split: list.splits if_splits)

lemma chunks_contiguous: "c \<in> set (chunks s) \<Longrightarrow> successively bit_follows c"
proof (induction s arbitrary: c rule: chunks.induct)
  case 1
  then show ?case by simp
next
  case (2 b bs)
  show ?case
  proof (cases "chunks bs")
    case Nil
    then show ?thesis using "2.prems" by simp
  next
    case (Cons d ds)
    have d: "successively bit_follows d" and ds: "\<forall>e\<in>set ds. successively bit_follows e"
      using "2.IH" Cons by auto
    have "d \<noteq> []" using chunks_nonempty [of d bs] Cons by simp
    then show ?thesis using "2.prems" Cons d ds by (cases d) (auto split: if_splits)
  qed
qed

subsection \<open>Lemmas: driving the chunks\<close>

lemma chunks_maximal: "successively (\<lambda>c d. \<not> bit_follows (last c) (hd d)) (chunks s)"
proof (induction s rule: chunks.induct)
  case 1
  then show ?case by simp
next
  case (2 b bs)
  show ?case
  proof (cases "chunks bs")
    case Nil
    then show ?thesis by simp
  next
    case (Cons d ds)
    have "d \<noteq> []" using chunks_nonempty [of d bs] Cons by simp
    then show ?thesis using "2.IH" Cons by (cases ds) (auto split: if_splits)
  qed
qed

lemma drive_chunks_free:
  assumes "free_mode (next_bit_mode w)"
  shows "drive_chunks w cs (idx, m) =
           Inr (w, (idx + 2 * length cs,
                    m\<lparr>mod_wires := mod_wires m @ run_wires idx (map length cs),
                      mod_cells := mod_cells m @ chunk_cells (next_bit_mode w) idx (map length cs),
                      mod_conns := mod_conns m @ zip cs (map wire_sig (run_wires idx (map length cs)))\<rparr>))"
  using assms
  by (induction cs arbitrary: idx m) (simp_all add: add_free_source_def module_connect_def Let_def)

lemma drive_chunks_bits:
  assumes "\<not> free_mode (next_bit_mode w)"
  shows "drive_chunks w cs (idx, m) =
           sbind (next_bits (length (concat cs)) w) (\<lambda>(bits, w').
             Inr (w', (idx, m\<lparr>mod_conns := mod_conns m @ zip cs (map (map BConst) (split_lens (map length cs) bits))\<rparr>)))"
  using assms
proof (induction cs arbitrary: w m)
  case Nil
  then show ?case by (simp add: next_bits_def)
next
  case (Cons c cs)
  show ?case
  proof (cases "next_bits (length c) w")
    case (Inl e)
    then show ?thesis using Cons.prems by (simp add: next_bits_add)
  next
    case (Inr r)
    obtain bs w1 where r: "r = (bs, w1)" by (cases r)
    have nb: "next_bits (length c) w = Inr (bs, w1)" using Inr r by simp
    have len: "length bs = length c" using next_bits_length [OF nb] .
    have nf: "\<not> free_mode (next_bit_mode w1)" using next_bits_mode_kept [OF nb] Cons.prems by simp
    show ?thesis
      using Cons.prems Cons.IH [OF nf] nb len
      by (auto simp: next_bits_add module_connect_def sbind_def split: sum.splits)
  qed
qed


lemma run_wires_widths: "map (\<lambda>wr. length (wire_sig wr)) (run_wires idx ls) = ls"
  by (induction ls arbitrary: idx) (simp_all add: free_wire_def wire_sig_def)

lemma drive_chunks_conns:
  assumes "drive_chunks w cs (idx, m) = Inr (w', (idx', m'))"
  shows "\<exists>ds. mod_conns m' = mod_conns m @ zip cs ds \<and> map length ds = map length cs"
proof (cases "free_mode (next_bit_mode w)")
  case True
  have "map length (map wire_sig (run_wires idx (map length cs))) = map length cs"
    using run_wires_widths [of idx "map length cs"] by (simp add: comp_def)
  then show ?thesis using assms drive_chunks_free [OF True, of cs idx m] by auto
next
  case False
  obtain bits w1 where nb: "next_bits (length (concat cs)) w = Inr (bits, w1)"
    and e: "Inr (w1, (idx, m\<lparr>mod_conns := mod_conns m @ zip cs (map (map BConst) (split_lens (map length cs) bits))\<rparr>))
            = Inr (w', (idx', m'))"
    using assms drive_chunks_bits [OF False, of cs idx m] by (auto simp: sbind_eq_Inr split: prod.splits)
  have "map length (map (map BConst) (split_lens (map length cs) bits)) = map length cs"
    using split_lens_lengths [OF next_bits_length [OF nb]] by (simp add: comp_def)
  then show ?thesis using e by auto
qed

lemma next_bits_const:
  "next_bit_mode w \<in> {MODE_ZERO, MODE_ONE, MODE_UNDEF} \<Longrightarrow>
   next_bits n w = Inr (replicate n (case next_bit_mode w of MODE_ZERO \<Rightarrow> S0 | MODE_ONE \<Rightarrow> S1 | _ \<Rightarrow> Sx), w)"
  by (induction n) (simp_all add: next_bits_Suc next_bit_const_mode)

subsection \<open>Properties\<close>

text \<open>C5: the undriven bits are exactly the representatives of the wire bits of
  the module, less those of input ports and those of the signals that cells
  drive (every port of an unknown cell, the output ports of a known one), each
  once.\<close>

theorem undriven_bits_exact:
  "set (undriven_bits ct m) =
     {b \<in> sigmap_of m ` set (concat (map wire_sig (mod_wires m))). is_wire_bit b}
     - sigmap_of m ` set (concat (map wire_sig (filter port_input (mod_wires m))))
     - sigmap_of m ` set (concat (driven_sigs ct m))
   \<and> distinct (undriven_bits ct m)"
  using undriven_bits_set undriven_bits_distinct by blast

theorem undriven_bits_exact_witness:
  "undriven_bits ex_ct ex_undriven = map (BWire (pub_id ''c'')) [0, 1, 2]
   \<and> distinct (undriven_bits ex_ct ex_undriven)"
proof -
  have e: "undriven_bits ex_ct ex_undriven = map (BWire (pub_id ''c'')) [0, 1, 2]"
    unfolding ex_undriven_def ex_ct_def ex_wire_def by code_simp
  have "distinct (undriven_bits ex_ct ex_undriven)" using undriven_bits_exact by blast
  with e show ?thesis by (rule conjI)
qed

text \<open>C22: the connections the block adds cover the undriven bits exactly
  once: their left sides are the chunks of the undriven bits, non-empty runs of
  consecutive bits, maximal, concatenating back to the undriven bits, and each
  is connected to a signal of its own width.\<close>

theorem undriven_step_conns:
  assumes "undriven_step ct w (idx, m) = Inr (w', (idx', m'))"
  shows "\<exists>new. mod_conns m' = mod_conns m @ new \<and> concat (map fst new) = undriven_bits ct m
     \<and> (\<forall>(c, d)\<in>set new. c \<noteq> [] \<and> successively bit_follows c \<and> length d = length c)
     \<and> successively (\<lambda>c d. \<not> bit_follows (last c) (hd d)) (map fst new)"
proof -
  let ?cs = "chunks (undriven_bits ct m)"
  have "drive_chunks w ?cs (idx, m) = Inr (w', (idx', m'))"
    using assms by (simp add: undriven_step_def split: if_splits)
  then obtain ds where c: "mod_conns m' = mod_conns m @ zip ?cs ds" and l: "map length ds = map length ?cs"
    using drive_chunks_conns by blast
  note z = zip_fst_lengths [OF l]
  have "\<forall>(c, d)\<in>set (zip ?cs ds). c \<noteq> [] \<and> successively bit_follows c \<and> length d = length c"
    using z by (auto dest: set_zip_leftD chunks_nonempty chunks_contiguous)
  then show ?thesis using c z chunks_maximal by (intro exI [of _ "zip ?cs ds"]) simp
qed

theorem undriven_step_conns_witness:
  "\<exists>new. mod_conns (snd (snd (projr (undriven_step ex_ct
            \<lparr>next_bit_mode = MODE_ZERO, next_bit_state = 0, siglist = []\<rparr> (7, ex_undriven)))))
          = mod_conns ex_undriven @ new
     \<and> concat (map fst new) = map (BWire (pub_id ''c'')) [0, 1, 2]"
proof -
  have e: "undriven_step ex_ct \<lparr>next_bit_mode = MODE_ZERO, next_bit_state = 0, siglist = []\<rparr> (7, ex_undriven)
      = Inr (\<lparr>next_bit_mode = MODE_ZERO, next_bit_state = 0, siglist = []\<rparr>,
             (7, ex_undriven\<lparr>mod_conns := [(map (BWire (pub_id ''c'')) [0, 1, 2], replicate 3 (BConst S0))]\<rparr>))"
    unfolding ex_undriven_def ex_ct_def ex_wire_def by code_simp
  have u: "undriven_bits ex_ct ex_undriven = map (BWire (pub_id ''c'')) [0, 1, 2]"
    unfolding ex_undriven_def ex_ct_def ex_wire_def by code_simp
  obtain new where "mod_conns (ex_undriven\<lparr>mod_conns := [(map (BWire (pub_id ''c'')) [0, 1, 2], replicate 3 (BConst S0))]\<rparr>)
      = mod_conns ex_undriven @ new" and "concat (map fst new) = undriven_bits ex_ct ex_undriven"
    using undriven_step_conns [OF e] by blast
  then show ?thesis using e u by (intro exI [of _ new]) simp
qed

text \<open>C11: in the modes \<open>-zero\<close>, \<open>-one\<close> and \<open>-undef\<close>, on a module without
  processes, the block connects each chunk of the undriven bits to the mode's
  constant, in order, and changes nothing else.\<close>

theorem undriven_step_const:
  assumes "next_bit_mode w \<in> {MODE_ZERO, MODE_ONE, MODE_UNDEF}" and "mod_procs m = []"
  shows "undriven_step ct w (idx, m) =
           Inr (w, (idx, m\<lparr>mod_conns := mod_conns m @
             map (\<lambda>c. (c, replicate (length c)
                     (BConst (case next_bit_mode w of MODE_ZERO \<Rightarrow> S0 | MODE_ONE \<Rightarrow> S1 | _ \<Rightarrow> Sx))))
                 (chunks (undriven_bits ct m))\<rparr>))"
proof -
  let ?cs = "chunks (undriven_bits ct m)"
  let ?k = "case next_bit_mode w of MODE_ZERO \<Rightarrow> S0 | MODE_ONE \<Rightarrow> S1 | _ \<Rightarrow> Sx"
  have nf: "\<not> free_mode (next_bit_mode w)" using assms(1) by (auto simp: free_mode_def)
  have l: "length (undriven_bits ct m) = length (concat ?cs)" by simp
  have sp: "split_lens (map length ?cs) (replicate (length (undriven_bits ct m)) ?k) =
            map (\<lambda>c. replicate (length c) ?k) ?cs"
    unfolding l by (rule split_lens_replicate)
  show ?thesis
    using assms(2)
    by (simp add: undriven_step_def drive_chunks_bits [OF nf] next_bits_const [OF assms(1)] sp
                  zip_map_same comp_def)
qed

theorem undriven_step_const_witness:
  "undriven_step ex_ct \<lparr>next_bit_mode = MODE_ZERO, next_bit_state = 0, siglist = []\<rparr> (7, ex_undriven) =
     Inr (\<lparr>next_bit_mode = MODE_ZERO, next_bit_state = 0, siglist = []\<rparr>,
          (7, ex_undriven\<lparr>mod_conns := [(map (BWire (pub_id ''c'')) [0, 1, 2], replicate 3 (BConst S0))]\<rparr>))
   \<and> mod_procs ex_undriven = []"
proof -
  have p: "mod_procs ex_undriven = []" by (simp add: ex_undriven_def)
  have e: "undriven_bits ex_ct ex_undriven = map (BWire (pub_id ''c'')) [0, 1, 2]"
    unfolding ex_undriven_def ex_ct_def ex_wire_def by code_simp
  have c: "chunks (map (BWire (pub_id ''c'')) [0, 1, 2]) = [map (BWire (pub_id ''c'')) [0, 1, 2]]"
    by (simp add: upt_rec)
  have mc: "mod_conns ex_undriven = []" by (simp add: ex_undriven_def)
  have "undriven_step ex_ct \<lparr>next_bit_mode = MODE_ZERO, next_bit_state = 0, siglist = []\<rparr> (7, ex_undriven) =
     Inr (\<lparr>next_bit_mode = MODE_ZERO, next_bit_state = 0, siglist = []\<rparr>,
          (7, ex_undriven\<lparr>mod_conns := mod_conns ex_undriven @
             map (\<lambda>c. (c, replicate (length c) (BConst S0))) (chunks (undriven_bits ex_ct ex_undriven))\<rparr>))"
    by (rule undriven_step_const [where w = "\<lparr>next_bit_mode = MODE_ZERO, next_bit_state = 0, siglist = []\<rparr>",
                                  simplified]) (simp add: p)
  then have "undriven_step ex_ct \<lparr>next_bit_mode = MODE_ZERO, next_bit_state = 0, siglist = []\<rparr> (7, ex_undriven) =
     Inr (\<lparr>next_bit_mode = MODE_ZERO, next_bit_state = 0, siglist = []\<rparr>,
          (7, ex_undriven\<lparr>mod_conns := [(map (BWire (pub_id ''c'')) [0, 1, 2], replicate 3 (BConst S0))]\<rparr>))"
    unfolding e c mc by (simp add: numeral_3_eq_3)
  with p show ?thesis by simp
qed

text \<open>C12: in random mode from a non-zero state, on a module without processes,
  the block connects the chunks of the undriven bits, in order, to consecutive
  pieces of the random stream, and advances the state once per undriven bit.\<close>

theorem undriven_step_random:
  assumes "next_bit_mode w = MODE_RANDOM" and "next_bit_state w \<noteq> 0" and "mod_procs m = []"
  shows "undriven_step ct w (idx, m) =
           Inr (w\<lparr>next_bit_state := (xorshift32 ^^ length (undriven_bits ct m)) (next_bit_state w)\<rparr>,
                (idx, m\<lparr>mod_conns := mod_conns m @
                   zip (chunks (undriven_bits ct m))
                       (map (map BConst) (split_lens (map length (chunks (undriven_bits ct m)))
                          (random_stream (next_bit_state w) (length (undriven_bits ct m)))))\<rparr>))"
proof -
  have nf: "\<not> free_mode (next_bit_mode w)" using assms(1) by (simp add: free_mode_def)
  have l: "length (concat (chunks (undriven_bits ct m))) = length (undriven_bits ct m)" by simp
  show ?thesis
    using assms(3)
    by (simp add: undriven_step_def drive_chunks_bits [OF nf] l next_bits_random [OF assms(1,2)])
qed

theorem undriven_step_random_witness:
  "undriven_step ex_ct \<lparr>next_bit_mode = MODE_RANDOM, next_bit_state = 1, siglist = []\<rparr> (7, ex_undriven) =
     Inr (\<lparr>next_bit_mode = MODE_RANDOM, next_bit_state = (xorshift32 ^^ 3) 1, siglist = []\<rparr>,
          (7, ex_undriven\<lparr>mod_conns := [(map (BWire (pub_id ''c'')) [0, 1, 2], map BConst (random_stream 1 3))]\<rparr>))"
proof -
  have p: "mod_procs ex_undriven = []" by (simp add: ex_undriven_def)
  have e: "undriven_bits ex_ct ex_undriven = map (BWire (pub_id ''c'')) [0, 1, 2]"
    unfolding ex_undriven_def ex_ct_def ex_wire_def by code_simp
  have c: "chunks (map (BWire (pub_id ''c'')) [0, 1, 2]) = [map (BWire (pub_id ''c'')) [0, 1, 2]]"
    by (simp add: upt_rec)
  have l: "\<And>s n. length (random_stream s n) = n" by (simp add: random_stream_def)
  have mc: "mod_conns ex_undriven = []" by (simp add: ex_undriven_def)
  have "undriven_step ex_ct \<lparr>next_bit_mode = MODE_RANDOM, next_bit_state = 1, siglist = []\<rparr> (7, ex_undriven) =
     Inr (\<lparr>next_bit_mode = MODE_RANDOM, next_bit_state = 1, siglist = []\<rparr>
            \<lparr>next_bit_state := (xorshift32 ^^ length (undriven_bits ex_ct ex_undriven)) 1\<rparr>,
          (7, ex_undriven\<lparr>mod_conns := mod_conns ex_undriven @
             zip (chunks (undriven_bits ex_ct ex_undriven))
                 (map (map BConst) (split_lens (map length (chunks (undriven_bits ex_ct ex_undriven)))
                    (random_stream 1 (length (undriven_bits ex_ct ex_undriven)))))\<rparr>))"
    using undriven_step_random [of "\<lparr>next_bit_mode = MODE_RANDOM, next_bit_state = 1, siglist = []\<rparr>"
                                   ex_undriven ex_ct 7] p
    by simp
  then show ?thesis
    unfolding e c mc by (simp add: l numeral_3_eq_3 del: funpow.simps)
qed

text \<open>C13: in the modes \<open>-anyseq\<close> and \<open>-anyconst\<close>, on a module without
  processes, the block adds one source cell and one wire per chunk of the
  undriven bits, of the chunk's width, connects each chunk to its wire, and
  leaves the worker unchanged.\<close>

theorem undriven_step_free:
  assumes "free_mode (next_bit_mode w)" and "mod_procs m = []"
  shows "undriven_step ct w (idx, m) =
           Inr (w, (idx + 2 * length (chunks (undriven_bits ct m)),
             m\<lparr>mod_wires := mod_wires m @ run_wires idx (map length (chunks (undriven_bits ct m))),
               mod_cells := mod_cells m @
                 chunk_cells (next_bit_mode w) idx (map length (chunks (undriven_bits ct m))),
               mod_conns := mod_conns m @
                 zip (chunks (undriven_bits ct m))
                     (map wire_sig (run_wires idx (map length (chunks (undriven_bits ct m)))))\<rparr>))"
  using assms by (simp add: undriven_step_def drive_chunks_free)

theorem undriven_step_free_witness:
  "mod_cells (snd (snd (projr (undriven_step ex_ct
       \<lparr>next_bit_mode = MODE_ANYSEQ, next_bit_state = 0, siglist = []\<rparr> (7, ex_undriven))))) =
     mod_cells ex_undriven @ chunk_cells MODE_ANYSEQ 7 [3]"
proof -
  have p: "mod_procs ex_undriven = []" by (simp add: ex_undriven_def)
  have e: "undriven_bits ex_ct ex_undriven = map (BWire (pub_id ''c'')) [0, 1, 2]"
    unfolding ex_undriven_def ex_ct_def ex_wire_def by code_simp
  have c: "chunks (map (BWire (pub_id ''c'')) [0, 1, 2]) = [map (BWire (pub_id ''c'')) [0, 1, 2]]"
    by (simp add: upt_rec)
  have "undriven_step ex_ct \<lparr>next_bit_mode = MODE_ANYSEQ, next_bit_state = 0, siglist = []\<rparr> (7, ex_undriven) =
     Inr (\<lparr>next_bit_mode = MODE_ANYSEQ, next_bit_state = 0, siglist = []\<rparr>,
          (7 + 2 * length (chunks (undriven_bits ex_ct ex_undriven)),
           ex_undriven\<lparr>mod_wires := mod_wires ex_undriven @
               run_wires 7 (map length (chunks (undriven_bits ex_ct ex_undriven))),
             mod_cells := mod_cells ex_undriven @
               chunk_cells MODE_ANYSEQ 7 (map length (chunks (undriven_bits ex_ct ex_undriven))),
             mod_conns := mod_conns ex_undriven @
               zip (chunks (undriven_bits ex_ct ex_undriven))
                   (map wire_sig (run_wires 7 (map length (chunks (undriven_bits ex_ct ex_undriven)))))\<rparr>))"
    by (rule undriven_step_free [where w = "\<lparr>next_bit_mode = MODE_ANYSEQ, next_bit_state = 0, siglist = []\<rparr>",
                                 simplified]) (simp_all add: p free_mode_def)
  then show ?thesis unfolding e c by (simp add: numeral_3_eq_3)
qed

text \<open>C14: \<open>-undriven\<close> on a module with processes fails with the error of
  line 189 before anything is changed.\<close>

theorem undriven_step_procs:
  "mod_procs m \<noteq> [] \<Longrightarrow> undriven_step ct w (idx, m) = Inl (FatalError msg_procs)"
  by (simp add: undriven_step_def)

theorem undriven_step_procs_witness:
  "undriven_step ex_ct \<lparr>next_bit_mode = MODE_ZERO, next_bit_state = 0, siglist = []\<rparr>
     (0, ex_undriven\<lparr>mod_procs := [[]]\<rparr>) = Inl (FatalError msg_procs)"
  by (rule undriven_step_procs) simp

end
