(* ===== verification/InitMerge.thy ===== *)
theory InitMerge
  imports Undriven
begin

text \<open>
  The \<open>-init\<close> block of \<open>SetundefPass::execute\<close>
  (\<open>src/passes/cmds/setundef.cc\<close>, lines 221--299): the flip-flop output bits
  are collected, the wires that carry an \<open>init\<close> attribute and the wires all of
  whose bits are still unclaimed flip-flop outputs (public names first, then
  generated ones) are claimed, and the \<open>init\<close> value of every claimed wire is
  extended to the wire's width and its \<open>x\<close> bits are replaced by \<open>next_bit()\<close>.
\<close>

subsection \<open>Flip-flop types and output bits\<close>

definition list_np :: "char list" where
  "list_np = [CHR ''N'', CHR ''P'']"

definition list_01 :: "char list" where
  "list_01 = [CHR ''0'', CHR ''1'']"

text \<open>Lines 227--250.\<close>

definition fftypes :: "string list" where
  "fftypes =
     [''$dff'', ''$dffe'', ''$dffsr'', ''$adff'']
     @ map (\<lambda>c1. ''$_DFF_'' @ [c1] @ ''_'') list_np
     @ concat (map (\<lambda>c1. map (\<lambda>c2. ''$_DFFE_'' @ [c1, c2] @ ''_'') list_np) list_np)
     @ concat (map (\<lambda>c1. concat (map (\<lambda>c2. map (\<lambda>c3. ''$_DFF_'' @ [c1, c2, c3] @ ''_'')
                   list_01) list_np)) list_np)
     @ concat (map (\<lambda>c1. concat (map (\<lambda>c2. map (\<lambda>c3. ''$_DFFSR_'' @ [c1, c2, c3] @ ''_'')
                   list_np) list_np)) list_np)"

text \<open>A \<open>pool<SigBit>\<close>: insertion keeps one copy; erasure removes it.\<close>

definition bits_insert :: "SigBit list \<Rightarrow> SigSpec \<Rightarrow> SigBit list" where
  "bits_insert p sig = fold (\<lambda>b p. if b \<in> set p then p else p @ [b]) sig p"

definition bits_erase :: "SigBit list \<Rightarrow> SigSpec \<Rightarrow> SigBit list" where
  "bits_erase p sig = filter (\<lambda>b. b \<notin> set sig) p"

text \<open>Lines 252--259: the mapped \<open>Q\<close> bits of every flip-flop cell;
  \<open>getPort\<close> is \<open>dict::at\<close>, which throws when the port is missing.\<close>

fun collect_ffbits :: "sigmap \<Rightarrow> Cell list \<Rightarrow> SigBit list \<Rightarrow> Fault + SigBit list" where
  "collect_ffbits sm [] ff = Inr ff"
| "collect_ffbits sm (c # cs) ff =
     (if cell_type c \<notin> set fftypes then collect_ffbits sm cs ff
      else (case map_of (cell_conns c) (pub_id ''Q'') of
              None \<Rightarrow> Inl OutOfRange
            | Some q \<Rightarrow> collect_ffbits sm cs (bits_insert ff (map sm q))))"

subsection \<open>Claiming wires\<close>

text \<open>Claimed wires are kept by their index in the module's wire list
  (\<open>pool<Wire*> initwires\<close>, in insertion order).\<close>

definition idx_insert :: "nat list \<Rightarrow> nat \<Rightarrow> nat list" where
  "idx_insert p i = (if i \<in> set p then p else p @ [i])"

text \<open>Lines 261--270: wires with an \<open>init\<close> attribute are claimed and their
  bits leave the flip-flop bits.\<close>

definition scan_init_attr :: "sigmap \<Rightarrow> Wire list \<Rightarrow> SigBit list \<times> nat list \<Rightarrow> SigBit list \<times> nat list" where
  "scan_init_attr sm ws st =
     fold (\<lambda>i (ff, iw). if wire_init (ws ! i) = None then (ff, iw)
                         else (bits_erase ff (map sm (wire_sig (ws ! i))), idx_insert iw i))
          [0..<length ws] st"

text \<open>Lines 272--287, one value of \<open>wire_types\<close>: a wire whose name starts
  with the skipped character is passed over; a wire all of whose mapped bits are
  still flip-flop bits is claimed and its bits leave them.\<close>

definition skip_char :: "nat \<Rightarrow> char" where
  "skip_char wire_types = (if wire_types \<noteq> 0 then CHR 0x5C else CHR ''$'')"

definition scan_ff_wires ::
  "sigmap \<Rightarrow> Wire list \<Rightarrow> nat \<Rightarrow> SigBit list \<times> nat list \<Rightarrow> SigBit list \<times> nat list" where
  "scan_ff_wires sm ws wire_types st =
     fold (\<lambda>i (ff, iw).
             if take 1 (wire_name (ws ! i)) = [skip_char wire_types] then (ff, iw)
             else if \<not> (\<forall>b\<in>set (map sm (wire_sig (ws ! i))). b \<in> set ff) then (ff, iw)
             else (bits_erase ff (map sm (wire_sig (ws ! i))), idx_insert iw i))
          [0..<length ws] st"

subsection \<open>Filling the \<open>init\<close> values\<close>

text \<open>Lines 291--297 for one wire: the loop \<open>for (int i = 0; i < GetSize(wire);
  i++)\<close> with \<open>i\<close> and the count \<open>k\<close> of iterations left.\<close>

fun fill_init :: "nat \<Rightarrow> nat \<Rightarrow> Worker \<Rightarrow> State list \<Rightarrow> Fault + (Worker \<times> State list)" where
  "fill_init i 0 w initval = Inr (w, initval)"
| "fill_init i (Suc k) w initval =
     (if length initval \<le> i then
        sbind (next_bit w) (\<lambda>(b, w'). fill_init (Suc i) k w' (initval @ [b]))
      else if initval ! i = Sx then
        sbind (next_bit w) (\<lambda>(b, w'). fill_init (Suc i) k w' (initval[i := b]))
      else fill_init (Suc i) k w initval)"

text \<open>\<open>wire->attributes["\\init"]\<close> (line 291) reads the \<open>init\<close> value, and
  creates an empty one when the wire has none.\<close>

definition init_attr :: "Wire \<Rightarrow> State list" where
  "init_attr wr = (case wire_init wr of None \<Rightarrow> [] | Some v \<Rightarrow> v)"

text \<open>Lines 289--298.\<close>

fun fill_wires :: "Worker \<Rightarrow> nat list \<Rightarrow> Module \<Rightarrow> Fault + (Worker \<times> Module)" where
  "fill_wires w [] m = Inr (w, m)"
| "fill_wires w (i # is) m =
     (let wr = mod_wires m ! i
      in sbind (fill_init 0 (wire_width wr) w (init_attr wr)) (\<lambda>(w', v').
           fill_wires w' is (m\<lparr>mod_wires := (mod_wires m)[i := wr\<lparr>wire_init := Some v'\<rparr>]\<rparr>)))"

text \<open>The whole block.\<close>

definition init_claims :: "sigmap \<Rightarrow> Wire list \<Rightarrow> SigBit list \<Rightarrow> nat list" where
  "init_claims sm ws ff0 =
     snd (scan_ff_wires sm ws 1 (scan_ff_wires sm ws 0 (scan_init_attr sm ws (ff0, []))))"

definition init_step :: "Worker \<Rightarrow> mstate \<Rightarrow> Fault + (Worker \<times> mstate)" where
  "init_step w st =
     (let m = snd st; sm = sigmap_of m
      in sbind (collect_ffbits sm (mod_cells m) []) (\<lambda>ff0.
           sbind (fill_wires w (init_claims sm (mod_wires m) ff0) m) (\<lambda>(w', m').
             Inr (w', (fst st, m')))))"

subsection \<open>Vocabulary of the lemmas and examples\<close>

text \<open>The contract of the fill loop on one \<open>init\<close> value \<open>v\<close> of a wire of
  width \<open>k\<close>: the value is extended to the width, the bits that are not \<open>x\<close>
  (and the bits beyond the width) are kept, and outside \<open>-undef\<close> no \<open>x\<close> bit is
  left below the width.\<close>

definition filled :: "Mode \<Rightarrow> State list \<Rightarrow> nat \<Rightarrow> State list \<Rightarrow> bool" where
  "filled md v k v' \<longleftrightarrow>
     length v' = max (length v) k
     \<and> (\<forall>j<length v. v ! j \<noteq> Sx \<or> k \<le> j \<longrightarrow> v' ! j = v ! j)
     \<and> (md \<noteq> MODE_UNDEF \<longrightarrow> (\<forall>j<k. v' ! j \<noteq> Sx))"

text \<open>The invariant of the scans over the state \<open>(ffbits, initwires)\<close>.\<close>

definition claims_inv :: "sigmap \<Rightarrow> Wire list \<Rightarrow> SigBit set \<Rightarrow> SigBit list \<times> nat list \<Rightarrow> bool" where
  "claims_inv sm ws F st \<longleftrightarrow>
     set (fst st) \<subseteq> F \<and> distinct (snd st)
     \<and> (\<forall>i\<in>set (snd st). i < length ws
           \<and> (wire_init (ws ! i) \<noteq> None \<or> set (map sm (wire_sig (ws ! i))) \<subseteq> F))"

text \<open>The mapped bits of the wires that carry an \<open>init\<close> attribute: lines
  263--267 erase them from \<open>ffbits\<close>.\<close>

definition init_covered :: "sigmap \<Rightarrow> Wire list \<Rightarrow> SigBit set" where
  "init_covered sm ws =
     \<Union> (set (map (\<lambda>j. set (map sm (wire_sig (ws ! j))))
                (filter (\<lambda>j. wire_init (ws ! j) \<noteq> None) [0..<length ws])))"

text \<open>The mapped \<open>Q\<close> bits of the flip-flop cells, and the condition under
  which every flip-flop cell has a \<open>Q\<close> port.\<close>

definition ff_q_bits :: "sigmap \<Rightarrow> Cell list \<Rightarrow> SigBit list" where
  "ff_q_bits sm cs =
     concat (map (\<lambda>c. case map_of (cell_conns c) (pub_id ''Q'') of None \<Rightarrow> [] | Some q \<Rightarrow> map sm q)
                 (filter (\<lambda>c. cell_type c \<in> set fftypes) cs))"

definition ff_have_q :: "Cell list \<Rightarrow> bool" where
  "ff_have_q cs \<longleftrightarrow> (\<forall>c\<in>set cs. cell_type c \<in> set fftypes \<longrightarrow> map_of (cell_conns c) (pub_id ''Q'') \<noteq> None)"

text \<open>The module of the init back-fill example of the specification: a
  flip-flop drives \<open>q\<close> with \<open>init = [0, x, 1]\<close>, a second one drives \<open>r\<close>,
  which has no \<open>init\<close>, and \<open>$z\<close> is a wire of width 0.\<close>

definition ex_ffwire :: "string \<Rightarrow> nat \<Rightarrow> State list option \<Rightarrow> Wire" where
  "ex_ffwire n k v = \<lparr>wire_name = n, wire_width = k, port_input = False, port_output = False, wire_init = v\<rparr>"

definition ex_ff :: Module where
  "ex_ff =
     \<lparr>mod_name = pub_id ''top'',
      mod_wires = [ex_ffwire (pub_id ''q'') 3 (Some [S0, Sx, S1]), ex_ffwire ''$z'' 0 None,
                   ex_ffwire (pub_id ''r'') 2 None],
      mod_cells = [\<lparr>cell_name = pub_id ''ff'', cell_type = ''$dff'', cell_params = [],
                    cell_conns = [(pub_id ''Q'', map (BWire (pub_id ''q'')) [0, 1, 2])]\<rparr>,
                   \<lparr>cell_name = pub_id ''ff2'', cell_type = ''$_DFF_P_'', cell_params = [],
                    cell_conns = [(pub_id ''Q'', map (BWire (pub_id ''r'')) [0, 1])]\<rparr>],
      mod_procs = [], mod_conns = []\<rparr>"

definition ex_ff_one :: Module where
  "ex_ff_one =
     ex_ff\<lparr>mod_wires := [ex_ffwire (pub_id ''q'') 3 (Some [S0, S1, S1]), ex_ffwire ''$z'' 0 (Some []),
                         ex_ffwire (pub_id ''r'') 2 (Some [S1, S1])]\<rparr>"

definition ex_one :: Worker where
  "ex_one = \<lparr>next_bit_mode = MODE_ONE, next_bit_state = 0, siglist = []\<rparr>"

subsection \<open>Lemmas: pools and the fill loop\<close>

lemma idx_insert_set [simp]: "set (idx_insert p i) = insert i (set p)"
  by (auto simp: idx_insert_def)

lemma idx_insert_distinct [simp]: "distinct (idx_insert p i) = distinct p"
  by (simp add: idx_insert_def)

lemma bits_erase_set [simp]: "set (bits_erase p sig) = set p - set sig"
  by (auto simp: bits_erase_def)

lemma bits_insert_set [simp]: "set (bits_insert p sig) = set p \<union> set sig"
  unfolding bits_insert_def by (induction sig arbitrary: p) auto

lemma fill_init_post:
  assumes "fill_init i k w v = Inr (w', v')" and "i \<le> length v"
  shows "length v' = max (length v) (i + k)
       \<and> (\<forall>j<length v. j < i \<or> i + k \<le> j \<or> v ! j \<noteq> Sx \<longrightarrow> v' ! j = v ! j)
       \<and> (next_bit_mode w \<noteq> MODE_UNDEF \<longrightarrow> (\<forall>j. i \<le> j \<and> j < i + k \<longrightarrow> v' ! j \<noteq> Sx))
       \<and> next_bit_mode w' = next_bit_mode w \<and> siglist w' = siglist w"
  using assms
proof (induction k arbitrary: i w v)
  case 0
  then show ?case by auto
next
  case (Suc k)
  show ?case
  proof (cases "length v \<le> i \<or> v ! i = Sx")
    case True
    let ?v1 = "\<lambda>b. if length v \<le> i then v @ [b] else v[i := b]"
    obtain b w1 where nb: "next_bit w = Inr (b, w1)"
      and r: "fill_init (Suc i) k w1 (?v1 b) = Inr (w', v')"
      using Suc.prems(1) True by (auto simp: sbind_eq_Inr split: if_splits)
    have l1: "length (?v1 b) = max (length v) (Suc i)" using Suc.prems(2) by auto
    have "Suc i \<le> length (?v1 b)" using l1 by simp
    note IH = Suc.IH [OF r this]
    have kept: "next_bit_mode w1 = next_bit_mode w \<and> siglist w1 = siglist w"
      using next_bit_mode_kept [OF nb] .
    have at_i: "?v1 b ! i = b" using Suc.prems(2) True by (auto simp: nth_append)
    have other: "?v1 b ! j = v ! j" if "j < length v" "j \<noteq> i" for j
      using that by (auto simp: nth_append)
    have len: "length v' = max (length v) (i + Suc k)" using IH l1 by simp
    have keep: "\<forall>j<length v. j < i \<or> i + Suc k \<le> j \<or> v ! j \<noteq> Sx \<longrightarrow> v' ! j = v ! j"
    proof (intro allI impI)
      fix j assume j: "j < length v" and c: "j < i \<or> i + Suc k \<le> j \<or> v ! j \<noteq> Sx"
      have "j \<noteq> i" using c True j by auto
      then show "v' ! j = v ! j" using IH c j l1 other [OF j] by auto
    qed
    have def: "next_bit_mode w \<noteq> MODE_UNDEF \<longrightarrow> (\<forall>j. i \<le> j \<and> j < i + Suc k \<longrightarrow> v' ! j \<noteq> Sx)"
    proof (intro impI allI)
      fix j assume u: "next_bit_mode w \<noteq> MODE_UNDEF" and j: "i \<le> j \<and> j < i + Suc k"
      have b: "b \<noteq> Sx" using next_bit_defined [OF nb u] by auto
      show "v' ! j \<noteq> Sx"
      proof (cases "j = i")
        case True
        then show ?thesis using IH l1 at_i b by auto
      next
        case False
        then show ?thesis using IH kept u j by auto
      qed
    qed
    show ?thesis using len keep def IH kept by simp
  next
    case False
    then have r: "fill_init (Suc i) k w v = Inr (w', v')" using Suc.prems(1) by simp
    have "Suc i \<le> length v" using False by simp
    note IH = Suc.IH [OF r this]
    have vi: "v' ! i = v ! i" "v ! i \<noteq> Sx" using IH False by auto
    have keep: "\<forall>j<length v. j < i \<or> i + Suc k \<le> j \<or> v ! j \<noteq> Sx \<longrightarrow> v' ! j = v ! j"
      using IH by auto
    have def: "next_bit_mode w \<noteq> MODE_UNDEF \<longrightarrow> (\<forall>j. i \<le> j \<and> j < i + Suc k \<longrightarrow> v' ! j \<noteq> Sx)"
    proof (intro impI allI)
      fix j assume u: "next_bit_mode w \<noteq> MODE_UNDEF" and j: "i \<le> j \<and> j < i + Suc k"
      show "v' ! j \<noteq> Sx"
      proof (cases "j = i")
        case True
        then show ?thesis using vi by simp
      next
        case False
        then have "Suc i \<le> j \<and> j < Suc i + k" using j by simp
        then show ?thesis using IH u by blast
      qed
    qed
    show ?thesis using IH keep def by simp
  qed
qed

lemma fill_init_filled:
  assumes "fill_init 0 k w v = Inr (w', v')"
  shows "filled (next_bit_mode w) v k v' \<and> next_bit_mode w' = next_bit_mode w \<and> siglist w' = siglist w"
  using fill_init_post [OF assms] unfolding filled_def by auto

lemma fill_init_ok:
  "gen_ok w \<Longrightarrow> \<exists>w' v'. fill_init i k w v = Inr (w', v') \<and> gen_ok w'"
proof (induction k arbitrary: i w v)
  case 0
  then show ?case by simp
next
  case (Suc k)
  obtain b w1 where nb: "next_bit w = Inr (b, w1)" and ok: "gen_ok w1"
    using next_bit_ok [OF Suc.prems] .
  show ?case using Suc.IH [OF ok] Suc.IH [OF Suc.prems] nb by simp
qed

lemma fill_wires_post:
  assumes "fill_wires w is m = Inr (w', m')" and "distinct is"
    and "\<forall>i\<in>set is. i < length (mod_wires m)"
  shows "m' = m\<lparr>mod_wires := mod_wires m'\<rparr> \<and> length (mod_wires m') = length (mod_wires m)
       \<and> (\<forall>j<length (mod_wires m). j \<notin> set is \<longrightarrow> mod_wires m' ! j = mod_wires m ! j)
       \<and> (\<forall>j\<in>set is. \<exists>v'. mod_wires m' ! j = (mod_wires m ! j)\<lparr>wire_init := Some v'\<rparr>
                        \<and> filled (next_bit_mode w) (init_attr (mod_wires m ! j)) (wire_width (mod_wires m ! j)) v')
       \<and> next_bit_mode w' = next_bit_mode w \<and> siglist w' = siglist w"
  using assms
proof (induction "is" arbitrary: w m)
  case Nil
  then show ?case by simp
next
  case (Cons i "is")
  let ?wr = "mod_wires m ! i"
  obtain w1 v1 where fi: "fill_init 0 (wire_width ?wr) w (init_attr ?wr) = Inr (w1, v1)"
    and r: "fill_wires w1 is (m\<lparr>mod_wires := (mod_wires m)[i := ?wr\<lparr>wire_init := Some v1\<rparr>]\<rparr>) = Inr (w', m')"
    using Cons.prems(1) by (auto simp: sbind_eq_Inr Let_def)
  let ?m1 = "m\<lparr>mod_wires := (mod_wires m)[i := ?wr\<lparr>wire_init := Some v1\<rparr>]\<rparr>"
  have f1: "filled (next_bit_mode w) (init_attr ?wr) (wire_width ?wr) v1"
    and k1: "next_bit_mode w1 = next_bit_mode w \<and> siglist w1 = siglist w"
    using fill_init_filled [OF fi] by auto
  have i: "i < length (mod_wires m)" "i \<notin> set is" "distinct is" using Cons.prems by auto
  note IH = Cons.IH [OF r i(3)]
  have IH': "m' = ?m1\<lparr>mod_wires := mod_wires m'\<rparr> \<and> length (mod_wires m') = length (mod_wires m)
       \<and> (\<forall>j<length (mod_wires m). j \<notin> set is \<longrightarrow> mod_wires m' ! j = mod_wires ?m1 ! j)
       \<and> (\<forall>j\<in>set is. \<exists>v'. mod_wires m' ! j = (mod_wires ?m1 ! j)\<lparr>wire_init := Some v'\<rparr>
                        \<and> filled (next_bit_mode w1) (init_attr (mod_wires ?m1 ! j)) (wire_width (mod_wires ?m1 ! j)) v')
       \<and> next_bit_mode w' = next_bit_mode w1 \<and> siglist w' = siglist w1"
    using IH Cons.prems(3) by simp
  have same: "mod_wires ?m1 ! j = mod_wires m ! j" if "j \<noteq> i" for j
    using that by simp
  have at_i: "mod_wires m' ! i = ?wr\<lparr>wire_init := Some v1\<rparr>"
    using IH' i by simp
  show ?case
  proof (intro conjI)
    show "m' = m\<lparr>mod_wires := mod_wires m'\<rparr>" using IH' by (cases m) simp
    show "length (mod_wires m') = length (mod_wires m)" using IH' by simp
    show "\<forall>j<length (mod_wires m). j \<notin> set (i # is) \<longrightarrow> mod_wires m' ! j = mod_wires m ! j"
      using IH' same by auto
    show "\<forall>j\<in>set (i # is). \<exists>v'. mod_wires m' ! j = (mod_wires m ! j)\<lparr>wire_init := Some v'\<rparr>
            \<and> filled (next_bit_mode w) (init_attr (mod_wires m ! j)) (wire_width (mod_wires m ! j)) v'"
    proof
      fix j assume "j \<in> set (i # is)"
      then consider "j = i" | "j \<in> set is" "j \<noteq> i" using i(2) by auto
      then show "\<exists>v'. mod_wires m' ! j = (mod_wires m ! j)\<lparr>wire_init := Some v'\<rparr>
            \<and> filled (next_bit_mode w) (init_attr (mod_wires m ! j)) (wire_width (mod_wires m ! j)) v'"
      proof cases
        case 1
        then show ?thesis using at_i f1 by auto
      next
        case 2
        then obtain v' where "mod_wires m' ! j = (mod_wires ?m1 ! j)\<lparr>wire_init := Some v'\<rparr>"
          and "filled (next_bit_mode w1) (init_attr (mod_wires ?m1 ! j)) (wire_width (mod_wires ?m1 ! j)) v'"
          using IH' by blast
        then show ?thesis using same [OF 2(2)] k1 by auto
      qed
    qed
    show "next_bit_mode w' = next_bit_mode w" "siglist w' = siglist w" using IH' k1 by simp_all
  qed
qed

lemma fill_wires_ok: "gen_ok w \<Longrightarrow> \<exists>w' m'. fill_wires w is m = Inr (w', m') \<and> gen_ok w'"
proof (induction "is" arbitrary: w m)
  case Nil
  then show ?case by simp
next
  case (Cons i "is")
  obtain w1 v1 where "fill_init 0 (wire_width (mod_wires m ! i)) w (init_attr (mod_wires m ! i)) = Inr (w1, v1)"
    and "gen_ok w1"
    using fill_init_ok [OF Cons.prems] by blast
  then show ?case using Cons.IH by (simp add: Let_def)
qed

subsection \<open>Lemmas: claiming wires\<close>

lemma claims_inv_insert:
  assumes "claims_inv sm ws F (ff, iw)" and "i < length ws"
    and "wire_init (ws ! i) \<noteq> None \<or> set (map sm (wire_sig (ws ! i))) \<subseteq> set ff"
  shows "claims_inv sm ws F (bits_erase ff (map sm (wire_sig (ws ! i))), idx_insert iw i)"
proof -
  have "set ff \<subseteq> F" using assms(1) by (simp add: claims_inv_def)
  then show ?thesis using assms unfolding claims_inv_def by auto
qed

lemma scan_init_attr_inv:
  "claims_inv sm ws F st \<Longrightarrow> claims_inv sm ws F (scan_init_attr sm ws st)"
  unfolding scan_init_attr_def
  by (rule fold_invariant [where Q = "\<lambda>i. i < length ws"]) (auto intro!: claims_inv_insert)

lemma scan_ff_wires_inv:
  "claims_inv sm ws F st \<Longrightarrow> claims_inv sm ws F (scan_ff_wires sm ws t st)"
  unfolding scan_ff_wires_def
  by (rule fold_invariant [where Q = "\<lambda>i. i < length ws"]) (auto intro!: claims_inv_insert)

lemma init_claims_inv:
  "claims_inv sm ws (set ff0) (ff0, init_claims sm ws ff0)"
proof -
  have "claims_inv sm ws (set ff0) (ff0, [])" by (simp add: claims_inv_def)
  then have "claims_inv sm ws (set ff0) (scan_ff_wires sm ws 1 (scan_ff_wires sm ws 0 (scan_init_attr sm ws (ff0, []))))"
    by (intro scan_ff_wires_inv scan_init_attr_inv)
  then show ?thesis by (simp add: claims_inv_def init_claims_def)
qed

text \<open>The first scan erases exactly the bits of the wires with an \<open>init\<close>
  attribute and claims exactly those wires.\<close>

lemma fold_init_attr:
  "set (fst (fold (\<lambda>i (ff, iw). if wire_init (ws ! i) = None then (ff, iw)
                         else (bits_erase ff (map sm (wire_sig (ws ! i))), idx_insert iw i)) is st))
     = set (fst st) - \<Union> (set (map (\<lambda>j. set (map sm (wire_sig (ws ! j))))
                                     (filter (\<lambda>j. wire_init (ws ! j) \<noteq> None) is)))
   \<and> set (snd (fold (\<lambda>i (ff, iw). if wire_init (ws ! i) = None then (ff, iw)
                         else (bits_erase ff (map sm (wire_sig (ws ! i))), idx_insert iw i)) is st))
     = set (snd st) \<union> set (filter (\<lambda>j. wire_init (ws ! j) \<noteq> None) is)"
  by (induction "is" arbitrary: st) (auto split: prod.splits)

lemma scan_init_attr_free:
  "claims_inv sm ws (set ff0 - init_covered sm ws) (scan_init_attr sm ws (ff0, []))"
proof -
  have d: "claims_inv sm ws (set ff0) (scan_init_attr sm ws (ff0, []))"
    by (rule scan_init_attr_inv) (simp add: claims_inv_def)
  note f = fold_init_attr [of ws sm "[0..<length ws]" "(ff0, [])"]
  show ?thesis
    using d f unfolding claims_inv_def scan_init_attr_def init_covered_def by auto
qed

lemma init_claims_free:
  "claims_inv sm ws (set ff0 - init_covered sm ws) (fst (scan_ff_wires sm ws 1 (scan_ff_wires sm ws 0
      (scan_init_attr sm ws (ff0, [])))), init_claims sm ws ff0)"
proof -
  have "claims_inv sm ws (set ff0 - init_covered sm ws)
          (scan_ff_wires sm ws 1 (scan_ff_wires sm ws 0 (scan_init_attr sm ws (ff0, []))))"
    by (intro scan_ff_wires_inv scan_init_attr_free)
  then show ?thesis by (simp add: init_claims_def)
qed

lemma scan_init_attr_mono: "set (snd st) \<subseteq> set (snd (scan_init_attr sm ws st))"
  unfolding scan_init_attr_def by (rule fold_mono_set) (auto split: prod.splits)

lemma scan_ff_wires_mono: "set (snd st) \<subseteq> set (snd (scan_ff_wires sm ws t st))"
  unfolding scan_ff_wires_def by (rule fold_mono_set) (auto split: prod.splits)

lemma scan_init_attr_claims:
  "i < length ws \<Longrightarrow> wire_init (ws ! i) \<noteq> None \<Longrightarrow> i \<in> set (snd (scan_init_attr sm ws st))"
  unfolding scan_init_attr_def by (rule fold_mono_mem [where h = snd]) (auto split: prod.splits)

lemma scan_ff_wires_zero:
  "i < length ws \<Longrightarrow> wire_width (ws ! i) = 0 \<Longrightarrow> take 1 (wire_name (ws ! i)) \<noteq> [skip_char t]
   \<Longrightarrow> i \<in> set (snd (scan_ff_wires sm ws t st))"
  unfolding scan_ff_wires_def by (rule fold_mono_mem [where h = snd]) (auto simp: wire_sig_def split: prod.splits)

lemma init_claims_attr:
  "i < length ws \<Longrightarrow> wire_init (ws ! i) \<noteq> None \<Longrightarrow> i \<in> set (init_claims sm ws ff0)"
  unfolding init_claims_def
  using scan_init_attr_claims scan_ff_wires_mono by blast

lemma init_claims_zero_width:
  assumes "i < length ws" and "wire_width (ws ! i) = 0"
  shows "i \<in> set (init_claims sm ws ff0)"
proof (cases "take 1 (wire_name (ws ! i)) = [CHR ''$'']")
  case True
  then have "take 1 (wire_name (ws ! i)) \<noteq> [skip_char 1]" by (simp add: skip_char_def)
  then show ?thesis unfolding init_claims_def using scan_ff_wires_zero [OF assms] by blast
next
  case False
  then have "take 1 (wire_name (ws ! i)) \<noteq> [skip_char 0]" by (simp add: skip_char_def)
  then show ?thesis unfolding init_claims_def using scan_ff_wires_zero [OF assms] scan_ff_wires_mono by blast
qed

subsection \<open>Lemmas: flip-flop bits and the whole block\<close>

lemma ff_q_bits_Cons:
  "ff_q_bits sm (c # cs) =
     (if cell_type c \<in> set fftypes
      then (case map_of (cell_conns c) (pub_id ''Q'') of None \<Rightarrow> [] | Some q \<Rightarrow> map sm q) @ ff_q_bits sm cs
      else ff_q_bits sm cs)"
  by (simp add: ff_q_bits_def)

lemma collect_ffbits_ok:
  "ff_have_q cs \<Longrightarrow> \<exists>ff. collect_ffbits sm cs ff0 = Inr ff \<and> set ff = set ff0 \<union> set (ff_q_bits sm cs)"
proof (induction sm cs ff0 rule: collect_ffbits.induct)
  case (1 sm ff)
  then show ?case by (simp add: ff_q_bits_def)
next
  case (2 sm c cs ff)
  have hq: "ff_have_q cs" using "2.prems" by (simp add: ff_have_q_def)
  show ?case
  proof (cases "cell_type c \<in> set fftypes")
    case False
    then show ?thesis using "2.IH"(1) [OF False hq] by (simp add: ff_q_bits_Cons)
  next
    case True
    then obtain q where q: "map_of (cell_conns c) (pub_id ''Q'') = Some q"
      using "2.prems" by (auto simp: ff_have_q_def)
    have c': "\<not> cell_type c \<notin> set fftypes" using True by simp
    show ?thesis using "2.IH"(2) [OF c' q hq] True q by (auto simp: ff_q_bits_Cons)
  qed
qed

lemma collect_ffbits_missing:
  "\<not> ff_have_q cs \<Longrightarrow> collect_ffbits sm cs ff0 = Inl OutOfRange"
proof (induction sm cs ff0 rule: collect_ffbits.induct)
  case (1 sm ff)
  then show ?case by (simp add: ff_have_q_def)
next
  case (2 sm c cs ff)
  show ?case
  proof (cases "cell_type c \<in> set fftypes \<and> map_of (cell_conns c) (pub_id ''Q'') = None")
    case True
    then show ?thesis by simp
  next
    case False
    then have hq: "\<not> ff_have_q cs" using "2.prems" by (auto simp: ff_have_q_def)
    show ?thesis
    proof (cases "cell_type c \<in> set fftypes")
      case c: True
      then obtain q where q: "map_of (cell_conns c) (pub_id ''Q'') = Some q" using False by auto
      have c': "\<not> cell_type c \<notin> set fftypes" using c by simp
      show ?thesis using "2.IH"(2) [OF c' q hq] c q by simp
    next
      case c: False
      show ?thesis using "2.IH"(1) [OF c hq] c by simp
    qed
  qed
qed

lemma collect_ffbits_Inr:
  assumes "collect_ffbits sm cs ff0 = Inr ff"
  shows "ff_have_q cs \<and> set ff = set ff0 \<union> set (ff_q_bits sm cs)"
proof -
  have hq: "ff_have_q cs"
  proof (rule ccontr)
    assume "\<not> ff_have_q cs"
    then show False using collect_ffbits_missing [of cs sm ff0] assms by simp
  qed
  then obtain ff' where "collect_ffbits sm cs ff0 = Inr ff'" "set ff' = set ff0 \<union> set (ff_q_bits sm cs)"
    using collect_ffbits_ok by blast
  then show ?thesis using assms hq by simp
qed

lemma init_step_Inr:
  assumes "init_step w (idx, m) = Inr (w', (idx', m'))"
  obtains ff0 where "collect_ffbits (sigmap_of m) (mod_cells m) [] = Inr ff0"
    and "fill_wires w (init_claims (sigmap_of m) (mod_wires m) ff0) m = Inr (w', m')" and "idx' = idx"
  using assms by (auto simp: init_step_def Let_def sbind_eq_Inr)

lemma init_step_post:
  assumes "init_step w (idx, m) = Inr (w', (idx', m'))"
  obtains ff0 where "set ff0 = set (ff_q_bits (sigmap_of m) (mod_cells m))"
    and "idx' = idx" and "m' = m\<lparr>mod_wires := mod_wires m'\<rparr>"
    and "length (mod_wires m') = length (mod_wires m)"
    and "\<forall>j<length (mod_wires m). j \<notin> set (init_claims (sigmap_of m) (mod_wires m) ff0)
            \<longrightarrow> mod_wires m' ! j = mod_wires m ! j"
    and "\<forall>j\<in>set (init_claims (sigmap_of m) (mod_wires m) ff0). \<exists>v'.
            mod_wires m' ! j = (mod_wires m ! j)\<lparr>wire_init := Some v'\<rparr>
            \<and> filled (next_bit_mode w) (init_attr (mod_wires m ! j)) (wire_width (mod_wires m ! j)) v'"
    and "next_bit_mode w' = next_bit_mode w" and "siglist w' = siglist w"
proof -
  obtain ff0 where c: "collect_ffbits (sigmap_of m) (mod_cells m) [] = Inr ff0"
    and f: "fill_wires w (init_claims (sigmap_of m) (mod_wires m) ff0) m = Inr (w', m')" and i: "idx' = idx"
    using init_step_Inr [OF assms] .
  have inv: "claims_inv (sigmap_of m) (mod_wires m) (set ff0) (ff0, init_claims (sigmap_of m) (mod_wires m) ff0)"
    by (rule init_claims_inv)
  have d: "distinct (init_claims (sigmap_of m) (mod_wires m) ff0)"
    and b: "\<forall>i\<in>set (init_claims (sigmap_of m) (mod_wires m) ff0). i < length (mod_wires m)"
    using inv by (auto simp: claims_inv_def)
  show ?thesis
    using that [of ff0] collect_ffbits_Inr [OF c] fill_wires_post [OF f d b] i by simp
qed

lemma ex_ff_init_step: "init_step ex_one (0, ex_ff) = Inr (ex_one, (0, ex_ff_one))"
  unfolding ex_ff_def ex_ff_one_def ex_ffwire_def ex_one_def by code_simp

subsection \<open>Properties\<close>

text \<open>C6: every wire that carries an \<open>init\<close> attribute gets its value
  filled: extended to the wire's width, its bits that are not \<open>x\<close> kept, and,
  outside \<open>-undef\<close>, no \<open>x\<close> bit left below the width; nothing else of the
  wire changes.\<close>

theorem init_step_fill:
  assumes "init_step w (idx, m) = Inr (w', (idx', m'))"
    and "j < length (mod_wires m)" and "wire_init (mod_wires m ! j) \<noteq> None"
  shows "\<exists>v'. mod_wires m' ! j = (mod_wires m ! j)\<lparr>wire_init := Some v'\<rparr>
           \<and> filled (next_bit_mode w) (init_attr (mod_wires m ! j)) (wire_width (mod_wires m ! j)) v'"
proof -
  obtain ff0 where
    "\<forall>j\<in>set (init_claims (sigmap_of m) (mod_wires m) ff0). \<exists>v'.
        mod_wires m' ! j = (mod_wires m ! j)\<lparr>wire_init := Some v'\<rparr>
        \<and> filled (next_bit_mode w) (init_attr (mod_wires m ! j)) (wire_width (mod_wires m ! j)) v'"
    using init_step_post [OF assms(1)] by metis
  then show ?thesis using init_claims_attr [OF assms(2,3)] by blast
qed

theorem init_step_fill_witness:
  "init_step ex_one (0, ex_ff) = Inr (ex_one, (0, ex_ff_one))
   \<and> wire_init (mod_wires ex_ff_one ! 0) = Some [S0, S1, S1]
   \<and> filled MODE_ONE [S0, Sx, S1] 3 [S0, S1, S1]"
proof -
  have "\<exists>v'. mod_wires ex_ff_one ! 0 = (mod_wires ex_ff ! 0)\<lparr>wire_init := Some v'\<rparr>
           \<and> filled (next_bit_mode ex_one) (init_attr (mod_wires ex_ff ! 0)) (wire_width (mod_wires ex_ff ! 0)) v'"
    by (rule init_step_fill [OF ex_ff_init_step]) (simp_all add: ex_ff_def ex_ffwire_def)
  then have "filled MODE_ONE [S0, Sx, S1] 3 [S0, S1, S1]"
    by (simp add: ex_ff_def ex_ff_one_def ex_ffwire_def ex_one_def init_attr_def)
  then show ?thesis using ex_ff_init_step by (simp add: ex_ff_one_def ex_ffwire_def)
qed

text \<open>C15: the block only changes \<open>init\<close> values, and only of wires
  that carry an \<open>init\<close> attribute or all of whose mapped bits are flip-flop
  outputs not covered by the bits of a wire with an \<open>init\<close> attribute; the
  counter and everything but the wires stay.\<close>

theorem init_step_targets:
  assumes "init_step w (idx, m) = Inr (w', (idx', m'))"
  shows "idx' = idx \<and> m' = m\<lparr>mod_wires := mod_wires m'\<rparr> \<and> length (mod_wires m') = length (mod_wires m)
       \<and> (\<forall>j<length (mod_wires m). \<exists>v. mod_wires m' ! j = (mod_wires m ! j)\<lparr>wire_init := v\<rparr>)
       \<and> (\<forall>j<length (mod_wires m). mod_wires m' ! j \<noteq> mod_wires m ! j \<longrightarrow>
             wire_init (mod_wires m ! j) \<noteq> None
             \<or> set (map (sigmap_of m) (wire_sig (mod_wires m ! j)))
                 \<subseteq> set (ff_q_bits (sigmap_of m) (mod_cells m)) - init_covered (sigmap_of m) (mod_wires m))"
proof -
  obtain ff0 where ff: "set ff0 = set (ff_q_bits (sigmap_of m) (mod_cells m))"
    and fr: "idx' = idx" "m' = m\<lparr>mod_wires := mod_wires m'\<rparr>" "length (mod_wires m') = length (mod_wires m)"
    and un: "\<forall>j<length (mod_wires m). j \<notin> set (init_claims (sigmap_of m) (mod_wires m) ff0)
            \<longrightarrow> mod_wires m' ! j = mod_wires m ! j"
    and ch: "\<forall>j\<in>set (init_claims (sigmap_of m) (mod_wires m) ff0). \<exists>v'.
            mod_wires m' ! j = (mod_wires m ! j)\<lparr>wire_init := Some v'\<rparr>
            \<and> filled (next_bit_mode w) (init_attr (mod_wires m ! j)) (wire_width (mod_wires m ! j)) v'"
    using init_step_post [OF assms] by metis
  have inv: "claims_inv (sigmap_of m) (mod_wires m) (set ff0 - init_covered (sigmap_of m) (mod_wires m))
      (fst (scan_ff_wires (sigmap_of m) (mod_wires m) 1 (scan_ff_wires (sigmap_of m) (mod_wires m) 0
        (scan_init_attr (sigmap_of m) (mod_wires m) (ff0, [])))), init_claims (sigmap_of m) (mod_wires m) ff0)"
    by (rule init_claims_free)
  have shape: "\<forall>j<length (mod_wires m). \<exists>v. mod_wires m' ! j = (mod_wires m ! j)\<lparr>wire_init := v\<rparr>"
  proof (intro allI impI)
    fix j assume j: "j < length (mod_wires m)"
    show "\<exists>v. mod_wires m' ! j = (mod_wires m ! j)\<lparr>wire_init := v\<rparr>"
    proof (cases "j \<in> set (init_claims (sigmap_of m) (mod_wires m) ff0)")
      case True
      then show ?thesis using ch by blast
    next
      case False
      then have "mod_wires m' ! j = (mod_wires m ! j)\<lparr>wire_init := wire_init (mod_wires m ! j)\<rparr>"
        using un j by simp
      then show ?thesis by blast
    qed
  qed
  have "\<forall>j<length (mod_wires m). mod_wires m' ! j \<noteq> mod_wires m ! j \<longrightarrow>
             wire_init (mod_wires m ! j) \<noteq> None
             \<or> set (map (sigmap_of m) (wire_sig (mod_wires m ! j)))
                 \<subseteq> set ff0 - init_covered (sigmap_of m) (mod_wires m)"
  proof (intro allI impI)
    fix j assume j: "j < length (mod_wires m)" and c: "mod_wires m' ! j \<noteq> mod_wires m ! j"
    have A: "\<forall>i\<in>set (init_claims (sigmap_of m) (mod_wires m) ff0). i < length (mod_wires m)
           \<and> (wire_init (mod_wires m ! i) \<noteq> None
              \<or> set (map (sigmap_of m) (wire_sig (mod_wires m ! i)))
                  \<subseteq> set ff0 - init_covered (sigmap_of m) (mod_wires m))"
      using inv unfolding claims_inv_def prod.sel by (elim conjE) assumption
    have "j \<in> set (init_claims (sigmap_of m) (mod_wires m) ff0)" using un j c by blast
    with A show "wire_init (mod_wires m ! j) \<noteq> None
             \<or> set (map (sigmap_of m) (wire_sig (mod_wires m ! j)))
                 \<subseteq> set ff0 - init_covered (sigmap_of m) (mod_wires m)"
      by (blast dest: bspec)
  qed
  then show ?thesis using fr shape ff by simp
qed

theorem init_step_targets_witness:
  "init_step ex_one (0, ex_ff) = Inr (ex_one, (0, ex_ff_one))
   \<and> set (map (sigmap_of ex_ff) (wire_sig (mod_wires ex_ff ! 2)))
       \<subseteq> set (ff_q_bits (sigmap_of ex_ff) (mod_cells ex_ff)) - init_covered (sigmap_of ex_ff) (mod_wires ex_ff)"
proof -
  note t = init_step_targets [OF ex_ff_init_step]
  have "mod_wires ex_ff_one ! 2 \<noteq> mod_wires ex_ff ! 2" "wire_init (mod_wires ex_ff ! 2) = None"
    "2 < length (mod_wires ex_ff)"
    by (simp_all add: ex_ff_def ex_ff_one_def ex_ffwire_def)
  then have "set (map (sigmap_of ex_ff) (wire_sig (mod_wires ex_ff ! 2)))
       \<subseteq> set (ff_q_bits (sigmap_of ex_ff) (mod_cells ex_ff)) - init_covered (sigmap_of ex_ff) (mod_wires ex_ff)"
    using t by blast
  with ex_ff_init_step show ?thesis by simp
qed

lemma init_step_ok:
  assumes "gen_ok w" and "ff_have_q (mod_cells m)"
  shows "\<exists>w' m'. init_step w (idx, m) = Inr (w', (idx, m')) \<and> gen_ok w'"
proof -
  obtain ff0 where "collect_ffbits (sigmap_of m) (mod_cells m) [] = Inr ff0"
    using collect_ffbits_ok [OF assms(2)] by blast
  then show ?thesis
    using fill_wires_ok [OF assms(1), of "init_claims (sigmap_of m) (mod_wires m) ff0" m]
    by (auto simp: init_step_def Let_def)
qed

lemma init_step_fails:
  "\<not> ff_have_q (mod_cells m) \<Longrightarrow> init_step w (idx, m) = Inl OutOfRange"
  by (simp add: init_step_def Let_def collect_ffbits_missing)

text \<open>C16: with a generator that cannot fail, the block succeeds exactly
  when every flip-flop cell has a \<open>Q\<close> port, and otherwise fails with the
  \<open>std::out_of_range\<close> of \<open>getPort\<close>.\<close>

theorem init_step_result:
  assumes "gen_ok w"
  shows "(ff_have_q (mod_cells m) \<longrightarrow> (\<exists>w' m'. init_step w (idx, m) = Inr (w', (idx, m')) \<and> gen_ok w'))
       \<and> (\<not> ff_have_q (mod_cells m) \<longrightarrow> init_step w (idx, m) = Inl OutOfRange)"
  using init_step_ok [OF assms] init_step_fails by blast

theorem init_step_result_witness:
  "gen_ok ex_one \<and> ff_have_q (mod_cells ex_ff)
   \<and> (\<exists>w' m'. init_step ex_one (0, ex_ff) = Inr (w', (0, m')) \<and> gen_ok w')"
proof -
  have g: "gen_ok ex_one" by (simp add: gen_ok_def ex_one_def)
  have q: "ff_have_q (mod_cells ex_ff)" by (simp add: ff_have_q_def ex_ff_def)
  have "\<exists>w' m'. init_step ex_one (0, ex_ff) = Inr (w', (0, m')) \<and> gen_ok w'"
    using init_step_result [OF g, of ex_ff 0] q by blast
  with g q show ?thesis by blast
qed

text \<open>C17: a wire of width 0 is always claimed, so it ends with an
  \<open>init\<close> attribute: an empty one when it had none.\<close>

theorem init_step_zero_width:
  assumes "init_step w (idx, m) = Inr (w', (idx', m'))"
    and "j < length (mod_wires m)" and "wire_width (mod_wires m ! j) = 0"
  shows "wire_init (mod_wires m' ! j) = Some (init_attr (mod_wires m ! j))"
proof -
  obtain ff0 where
    ch: "\<forall>j\<in>set (init_claims (sigmap_of m) (mod_wires m) ff0). \<exists>v'.
        mod_wires m' ! j = (mod_wires m ! j)\<lparr>wire_init := Some v'\<rparr>
        \<and> filled (next_bit_mode w) (init_attr (mod_wires m ! j)) (wire_width (mod_wires m ! j)) v'"
    using init_step_post [OF assms(1)] by metis
  obtain v' where v: "mod_wires m' ! j = (mod_wires m ! j)\<lparr>wire_init := Some v'\<rparr>"
    and f: "filled (next_bit_mode w) (init_attr (mod_wires m ! j)) 0 v'"
    using ch init_claims_zero_width [OF assms(2,3)] assms(3) by fastforce
  have "v' = init_attr (mod_wires m ! j)"
    using f by (auto simp: filled_def intro: nth_equalityI)
  then show ?thesis using v by simp
qed

theorem init_step_zero_width_witness:
  "init_step ex_one (0, ex_ff) = Inr (ex_one, (0, ex_ff_one))
   \<and> wire_width (mod_wires ex_ff ! 1) = 0 \<and> wire_init (mod_wires ex_ff ! 1) = None
   \<and> wire_init (mod_wires ex_ff_one ! 1) = Some []"
proof -
  have w: "wire_width (mod_wires ex_ff ! 1) = 0" "wire_init (mod_wires ex_ff ! 1) = None"
    "1 < length (mod_wires ex_ff)"
    by (simp_all add: ex_ff_def ex_ffwire_def)
  have "wire_init (mod_wires ex_ff_one ! 1) = Some (init_attr (mod_wires ex_ff ! 1))"
    by (rule init_step_zero_width [OF ex_ff_init_step w(3,1)])
  then have "wire_init (mod_wires ex_ff_one ! 1) = Some []" using w(2) by (simp add: init_attr_def)
  with ex_ff_init_step w(1,2) show ?thesis by simp
qed

end
