(* ===== verification/Options.thy ===== *)
theory Options
  imports BitGen
begin

text \<open>
  Option parsing and validation of \<open>SetundefPass::execute\<close>
  (\<open>src/passes/cmds/setundef.cc\<close>): the loop over the arguments that sets the
  flags and the worker's mode and state (seeding and warming up the generator
  for \<open>-random\<close>), \<open>extra_args\<close>, and the two usage errors raised before any
  module is touched. \<open>atoi\<close> (C library) and \<open>extra_args\<close> (kernel) are
  modelled from their documented behaviour.
\<close>

subsection \<open>Definitions\<close>

record Opts =
  got_value :: bool
  undriven_mode :: bool
  init_mode :: bool
  worker :: Worker

text \<open>\<open>SetundefWorker worker;\<close> leaves mode and state uninitialised and the
  list empty; the initial worker is a parameter \<open>w0\<close> of the model.\<close>

definition init_opts :: "Worker \<Rightarrow> Opts" where
  "init_opts w0 = \<lparr>got_value = False, undriven_mode = False, init_mode = False,
                   worker = w0\<lparr>siglist := []\<rparr>\<rparr>"

text \<open>\<open>atoi\<close>: leading white space, an optional sign, then decimal digits up
  to the first other character. (Out-of-range input is undefined behaviour in
  C; the model reads the digits as an unbounded integer.)\<close>

fun digits_val :: "int \<Rightarrow> string \<Rightarrow> int" where
  "digits_val acc [] = acc"
| "digits_val acc (c # cs) =
     (if 48 \<le> (of_char c :: nat) \<and> (of_char c :: nat) \<le> 57
      then digits_val (10 * acc + (int (of_char c) - 48)) cs else acc)"

definition is_space :: "char \<Rightarrow> bool" where
  "is_space c \<longleftrightarrow> c = CHR '' '' \<or> (9 \<le> (of_char c :: nat) \<and> (of_char c :: nat) \<le> 13)"

definition atoi :: "string \<Rightarrow> int" where
  "atoi s =
     (case dropWhile is_space s of
        c # r \<Rightarrow> (if c = CHR ''-'' then - digits_val 0 r
                  else if c = CHR ''+'' then digits_val 0 r else digits_val 0 (c # r))
      | [] \<Rightarrow> 0)"

text \<open>\<open>-random <seed>\<close>: \<open>next_bit_state = atoi(seed) + 1\<close> (converted to
  \<open>uint32_t\<close>), then ten calls of \<open>next_bit()\<close> whose results are dropped.\<close>

definition random_init :: "string \<Rightarrow> Worker \<Rightarrow> Fault + Worker" where
  "random_init seed w =
     sbind (next_bits 10 (w\<lparr>next_bit_mode := MODE_RANDOM,
                            next_bit_state := word_of_int (atoi seed + 1)\<rparr>))
       (\<lambda>(_, w'). Inr w')"

text \<open>The five value options set \<open>got_value\<close>, the mode, and the state to 0.\<close>

definition set_mode :: "Mode \<Rightarrow> Opts \<Rightarrow> Opts" where
  "set_mode md ob =
     ob\<lparr>got_value := True,
       worker := (worker ob)\<lparr>next_bit_mode := md, next_bit_state := 0\<rparr>\<rparr>"

text \<open>The loop \<open>for (argidx = 1; argidx < args.size(); argidx++)\<close>, in the
  order of its tests; it stops at the first argument no test accepts and
  returns the options and that index.\<close>

function parse_args :: "string list \<Rightarrow> nat \<Rightarrow> Opts \<Rightarrow> Fault + (Opts \<times> nat)" where
  "parse_args args argidx ob =
     (if argidx < length args then
        (let a = args ! argidx in
         if a = ''-undriven'' then parse_args args (Suc argidx) (ob\<lparr>undriven_mode := True\<rparr>)
         else if a = ''-zero'' then parse_args args (Suc argidx) (set_mode MODE_ZERO ob)
         else if a = ''-one'' then parse_args args (Suc argidx) (set_mode MODE_ONE ob)
         else if a = ''-anyseq'' then parse_args args (Suc argidx) (set_mode MODE_ANYSEQ ob)
         else if a = ''-anyconst'' then parse_args args (Suc argidx) (set_mode MODE_ANYCONST ob)
         else if a = ''-undef'' then parse_args args (Suc argidx) (set_mode MODE_UNDEF ob)
         else if a = ''-init'' then parse_args args (Suc argidx) (ob\<lparr>init_mode := True\<rparr>)
         else if a = ''-random'' \<and> \<not> got_value ob \<and> Suc argidx < length args then
           sbind (random_init (args ! Suc argidx) (worker ob))
             (\<lambda>w. parse_args args (Suc (Suc argidx)) (ob\<lparr>got_value := True, worker := w\<rparr>))
         else Inr (ob, argidx))
      else Inr (ob, argidx))"
  by pat_completeness auto
termination
  by (relation "measure (\<lambda>(args, argidx, ob). length args - argidx)") auto

text \<open>\<open>Pass::extra_args\<close>: the first argument left over must not look like
  an option; the rest is a selection.\<close>

definition extra_args :: "string list \<Rightarrow> nat \<Rightarrow> Fault + unit" where
  "extra_args args argidx =
     (if argidx < length args \<and> take 1 (args ! argidx) = ''-''
      then Inl (CmdError ''Unknown option or option in arguments.'') else Inr ())"

definition msg_no_value :: string where
  "msg_no_value = ''One of the options -zero, -one, -anyseq, -anyconst, or -random <seed> must be specified.''"

definition msg_exclusive :: string where
  "msg_exclusive = ''The options -init and -anyseq / -anyconst are exclusive.''"

text \<open>Everything \<open>execute\<close> does before the loop over the modules.\<close>

definition setundef_options :: "string list \<Rightarrow> Worker \<Rightarrow> Fault + Opts" where
  "setundef_options args w0 =
     sbind (parse_args args 1 (init_opts w0)) (\<lambda>(ob, argidx).
       sbind (extra_args args argidx) (\<lambda>_.
         if \<not> got_value ob then Inl (CmdError msg_no_value)
         else if init_mode ob \<and> free_mode (next_bit_mode (worker ob)) then Inl (CmdError msg_exclusive)
         else Inr ob))"

subsection \<open>Abstract specification of the flag options\<close>

fun value_mode_of :: "string \<Rightarrow> Mode option" where
  "value_mode_of a =
     (if a = ''-zero'' then Some MODE_ZERO else if a = ''-one'' then Some MODE_ONE
      else if a = ''-anyseq'' then Some MODE_ANYSEQ else if a = ''-anyconst'' then Some MODE_ANYCONST
      else if a = ''-undef'' then Some MODE_UNDEF else None)"

definition flag_opt :: "string \<Rightarrow> bool" where
  "flag_opt a \<longleftrightarrow> a = ''-undriven'' \<or> a = ''-init'' \<or> value_mode_of a \<noteq> None"

text \<open>The value option that wins is the last one given.\<close>

fun last_value_mode :: "string list \<Rightarrow> Mode option" where
  "last_value_mode [] = None"
| "last_value_mode (a # as) =
     (case last_value_mode as of Some md \<Rightarrow> Some md | None \<Rightarrow> value_mode_of a)"

declare parse_args.simps [simp del]

subsection \<open>Lemmas\<close>

lemma parse_args_stop:
  "\<not> argidx < length args \<Longrightarrow> parse_args args argidx ob = Inr (ob, argidx)"
  by (simp add: parse_args.simps)

lemma parse_args_flag:
  assumes "argidx < length args" and "flag_opt (args ! argidx)"
  shows "parse_args args argidx ob =
           parse_args args (Suc argidx)
             (if args ! argidx = ''-undriven'' then ob\<lparr>undriven_mode := True\<rparr>
              else if args ! argidx = ''-init'' then ob\<lparr>init_mode := True\<rparr>
              else set_mode (the (value_mode_of (args ! argidx))) ob)"
  using assms by (subst parse_args.simps) (auto simp: flag_opt_def Let_def)

text \<open>Parsing a run of flag options: \<open>-init\<close> and \<open>-undriven\<close> are
  sticky, and the last value option sets the mode (with state 0).\<close>

lemma parse_args_flags:
  assumes "\<forall>a\<in>set opts. flag_opt a"
  shows "\<exists>ob'. parse_args (pre @ opts @ post) (length pre) ob =
                 parse_args (pre @ opts @ post) (length pre + length opts) ob'
     \<and> got_value ob' = (got_value ob \<or> last_value_mode opts \<noteq> None)
     \<and> init_mode ob' = (init_mode ob \<or> ''-init'' \<in> set opts)
     \<and> undriven_mode ob' = (undriven_mode ob \<or> ''-undriven'' \<in> set opts)
     \<and> worker ob' = (case last_value_mode opts of None \<Rightarrow> worker ob
          | Some md \<Rightarrow> (worker ob)\<lparr>next_bit_mode := md, next_bit_state := 0\<rparr>)"
  using assms
proof (induction opts arbitrary: pre ob)
  case Nil
  then show ?case by auto
next
  case (Cons a rest)
  let ?ob1 = "if a = ''-undriven'' then ob\<lparr>undriven_mode := True\<rparr>
              else if a = ''-init'' then ob\<lparr>init_mode := True\<rparr>
              else set_mode (the (value_mode_of a)) ob"
  have step: "parse_args (pre @ (a # rest) @ post) (length pre) ob =
              parse_args ((pre @ [a]) @ rest @ post) (length (pre @ [a])) ?ob1"
    using parse_args_flag [of "length pre" "pre @ a # rest @ post" ob] Cons.prems by simp
  obtain ob' where IH: "parse_args ((pre @ [a]) @ rest @ post) (length (pre @ [a])) ?ob1
        = parse_args ((pre @ [a]) @ rest @ post) (length (pre @ [a]) + length rest) ob'
     \<and> got_value ob' = (got_value ?ob1 \<or> last_value_mode rest \<noteq> None)
     \<and> init_mode ob' = (init_mode ?ob1 \<or> ''-init'' \<in> set rest)
     \<and> undriven_mode ob' = (undriven_mode ?ob1 \<or> ''-undriven'' \<in> set rest)
     \<and> worker ob' = (case last_value_mode rest of None \<Rightarrow> worker ?ob1
          | Some md \<Rightarrow> (worker ?ob1)\<lparr>next_bit_mode := md, next_bit_state := 0\<rparr>)"
    using Cons.IH [of "pre @ [a]" ?ob1] Cons.prems by auto
  have fa: "flag_opt a" using Cons.prems by simp
  show ?case
    using IH step fa
    by (auto simp: flag_opt_def set_mode_def split: option.splits if_splits)
qed

text \<open>The outcome of \<open>execute\<close>'s checks for a command line of flag
  options only.\<close>

lemma setundef_options_flags:
  assumes "\<forall>a\<in>set opts. flag_opt a"
  shows "setundef_options (cmd # opts) w0 =
     (case last_value_mode opts of
        None \<Rightarrow> Inl (CmdError msg_no_value)
      | Some md \<Rightarrow>
          if ''-init'' \<in> set opts \<and> free_mode md then Inl (CmdError msg_exclusive)
          else Inr \<lparr>got_value = True, undriven_mode = (''-undriven'' \<in> set opts),
                    init_mode = (''-init'' \<in> set opts),
                    worker = w0\<lparr>siglist := [], next_bit_mode := md, next_bit_state := 0\<rparr>\<rparr>)"
proof -
  obtain ob' where p: "parse_args ([cmd] @ opts @ []) (length [cmd]) (init_opts w0) =
        parse_args ([cmd] @ opts @ []) (length [cmd] + length opts) ob'"
    and g: "got_value ob' = (last_value_mode opts \<noteq> None)"
    and i: "init_mode ob' = (''-init'' \<in> set opts)"
    and u: "undriven_mode ob' = (''-undriven'' \<in> set opts)"
    and w: "worker ob' = (case last_value_mode opts of None \<Rightarrow> w0\<lparr>siglist := []\<rparr>
          | Some md \<Rightarrow> w0\<lparr>siglist := [], next_bit_mode := md, next_bit_state := 0\<rparr>)"
    using parse_args_flags [OF assms, of "[cmd]" "[]" "init_opts w0"]
    by (auto simp: init_opts_def split: option.splits)
  have "parse_args (cmd # opts) 1 (init_opts w0) = Inr (ob', Suc (length opts))"
    using p by (simp add: parse_args_stop)
  then show ?thesis using g i u w
    by (cases ob') (auto simp: setundef_options_def extra_args_def split: option.splits)
qed

lemma random_init_zero:
  "word_of_int (atoi seed + 1) = (0::u32) \<Longrightarrow> random_init seed w = Inl AssertFail"
  by (simp add: random_init_def next_bits_Suc next_bit_zero_state eval_nat_numeral)

lemma random_init_nonzero:
  "word_of_int (atoi seed + 1) \<noteq> (0::u32) \<Longrightarrow>
   random_init seed w = Inr (w\<lparr>next_bit_mode := MODE_RANDOM,
     next_bit_state := (xorshift32 ^^ 10) (word_of_int (atoi seed + 1))\<rparr>)"
  by (simp add: random_init_def next_bits_random)

subsection \<open>Properties\<close>

text \<open>C8: \<open>-init\<close> together with a last value option \<open>-anyseq\<close> or
  \<open>-anyconst\<close> is rejected with the exclusivity error, whatever the order of
  the options; no module is looked at.\<close>

theorem options_exclusive:
  assumes "\<forall>a\<in>set opts. flag_opt a" and "''-init'' \<in> set opts"
    and "last_value_mode opts \<in> {Some MODE_ANYSEQ, Some MODE_ANYCONST}"
  shows "setundef_options (cmd # opts) w0 = Inl (CmdError msg_exclusive)"
  using setundef_options_flags [OF assms(1), of cmd w0] assms(2,3)
  by (auto simp: free_mode_def)

theorem options_exclusive_witness:
  "setundef_options [''setundef'', ''-init'', ''-anyconst'']
     \<lparr>next_bit_mode = MODE_ZERO, next_bit_state = 0, siglist = []\<rparr> = Inl (CmdError msg_exclusive)"
  using options_exclusive [of "[''-init'', ''-anyconst'']" "''setundef''"
      "\<lparr>next_bit_mode = MODE_ZERO, next_bit_state = 0, siglist = []\<rparr>"]
  by (simp add: flag_opt_def)

text \<open>C26: a command line of flag options without a value option is rejected
  with the usage error.\<close>

theorem options_no_value:
  assumes "\<forall>a\<in>set opts. flag_opt a" and "last_value_mode opts = None"
  shows "setundef_options (cmd # opts) w0 = Inl (CmdError msg_no_value)"
  using setundef_options_flags [OF assms(1), of cmd w0] assms(2) by simp

theorem options_no_value_witness:
  "setundef_options [''setundef'', ''-undriven'', ''-init'']
     \<lparr>next_bit_mode = MODE_ZERO, next_bit_state = 0, siglist = []\<rparr> = Inl (CmdError msg_no_value)"
  using options_no_value [of "[''-undriven'', ''-init'']" "''setundef''"
      "\<lparr>next_bit_mode = MODE_ZERO, next_bit_state = 0, siglist = []\<rparr>"]
  by (simp add: flag_opt_def)

text \<open>C27: several value options are accepted and the last one wins: the mode
  is that of the last value option, the state is 0, and \<open>-init\<close> and
  \<open>-undriven\<close> are set when they occur anywhere.\<close>

theorem options_last_value_wins:
  assumes "\<forall>a\<in>set opts. flag_opt a" and "last_value_mode opts = Some md"
    and "\<not> (''-init'' \<in> set opts \<and> free_mode md)"
  shows "setundef_options (cmd # opts) w0 =
    Inr \<lparr>got_value = True, undriven_mode = (''-undriven'' \<in> set opts),
         init_mode = (''-init'' \<in> set opts),
         worker = w0\<lparr>siglist := [], next_bit_mode := md, next_bit_state := 0\<rparr>\<rparr>"
  using setundef_options_flags [OF assms(1), of cmd w0] assms(2,3) by simp

theorem options_last_value_wins_witness:
  "setundef_options [''setundef'', ''-anyseq'', ''-init'', ''-one'']
     \<lparr>next_bit_mode = MODE_ZERO, next_bit_state = 7, siglist = []\<rparr> =
   Inr \<lparr>got_value = True, undriven_mode = False, init_mode = True,
        worker = \<lparr>next_bit_mode = MODE_ONE, next_bit_state = 0, siglist = []\<rparr>\<rparr>"
  using options_last_value_wins [of "[''-anyseq'', ''-init'', ''-one'']" MODE_ONE "''setundef''"
      "\<lparr>next_bit_mode = MODE_ZERO, next_bit_state = 7, siglist = []\<rparr>"]
  by (simp add: flag_opt_def free_mode_def)

text \<open>C28: \<open>-random\<close> after a value option is not parsed as an option: the
  loop stops there and \<open>extra_args\<close> rejects it as an unknown option.\<close>

theorem options_random_after_value:
  assumes "\<forall>a\<in>set pre. flag_opt a" and "last_value_mode pre \<noteq> None"
  shows "setundef_options (cmd # pre @ ''-random'' # rest) w0 =
           Inl (CmdError ''Unknown option or option in arguments.'')"
proof -
  obtain ob' where p: "parse_args ([cmd] @ pre @ ''-random'' # rest) (length [cmd]) (init_opts w0) =
        parse_args ([cmd] @ pre @ ''-random'' # rest) (length [cmd] + length pre) ob'"
    and g: "got_value ob'"
    using parse_args_flags [OF assms(1), of "[cmd]" "''-random'' # rest" "init_opts w0"] assms(2)
    by (auto simp: init_opts_def)
  have "parse_args (cmd # pre @ ''-random'' # rest) (Suc (length pre)) ob' = Inr (ob', Suc (length pre))"
    using g by (subst parse_args.simps) (simp add: nth_append)
  then show ?thesis using p by (simp add: setundef_options_def extra_args_def nth_append)
qed

theorem options_random_after_value_witness:
  "setundef_options [''setundef'', ''-zero'', ''-random'', ''5'']
     \<lparr>next_bit_mode = MODE_ZERO, next_bit_state = 0, siglist = []\<rparr> =
   Inl (CmdError ''Unknown option or option in arguments.'')"
  using options_random_after_value [of "[''-zero'']" "''setundef''" "[''5'']"
      "\<lparr>next_bit_mode = MODE_ZERO, next_bit_state = 0, siglist = []\<rparr>"]
  by (simp add: flag_opt_def)

text \<open>C29: seeding: \<open>-random <seed>\<close> fails on the internal assertion exactly
  when \<open>atoi(seed) + 1\<close> is 0 modulo \<open>2^32\<close>; otherwise the warmed-up
  state is ten xorshift steps from it.\<close>

theorem random_init_guard:
  "random_init seed w =
     (if word_of_int (atoi seed + 1) = (0::u32) then Inl AssertFail
      else Inr (w\<lparr>next_bit_mode := MODE_RANDOM,
                   next_bit_state := (xorshift32 ^^ 10) (word_of_int (atoi seed + 1))\<rparr>))"
  by (simp add: random_init_zero random_init_nonzero)

end
