(* ===== verification/Pass.thy ===== *)
theory Pass
  imports InitMerge Options
begin

text \<open>
  The per-module driver of \<open>SetundefPass::execute\<close>
  (\<open>src/passes/cmds/setundef.cc\<close>, lines 184--331) and the whole command: after the
  options, every selected module goes through the \<open>-undriven\<close> block, the
  \<open>-init\<close> block, \<open>module->rewrite_sigspecs(worker)\<close> and, in the free-variable
  modes, the coalescer over the recorded signal specs, whose list is swapped
  out of the worker (and so emptied) first. One worker and one name counter
  are shared by all modules.
\<close>

subsection \<open>Definitions\<close>

text \<open>Lines 186--330 for one module.\<close>

definition module_step :: "celltypes \<Rightarrow> Opts \<Rightarrow> Worker \<Rightarrow> mstate \<Rightarrow> Fault + (Worker \<times> mstate)" where
  "module_step ct ob w st =
     sbind (if undriven_mode ob then undriven_step ct w st else Inr (w, st)) (\<lambda>(w1, st1).
       sbind (if init_mode ob then init_step w1 st1 else Inr (w1, st1)) (\<lambda>(w2, st2).
         sbind (rewrite_module w2 (snd st2)) (\<lambda>(w3, m3).
           if free_mode (next_bit_mode w3)
           then Inr (w3\<lparr>siglist := []\<rparr>, coalesce_all (next_bit_mode w3) (siglist w3) (fst st2, m3))
           else Inr (w3, (fst st2, m3)))))"

text \<open>Line 184: \<open>for (auto module : design->selected_modules())\<close>; the
  selected modules are given in iteration order, with the counter
  \<open>autoidx\<close>.\<close>

fun modules_loop ::
  "celltypes \<Rightarrow> Opts \<Rightarrow> Worker \<Rightarrow> nat \<Rightarrow> Module list \<Rightarrow> Fault + (Worker \<times> nat \<times> Module list)" where
  "modules_loop ct ob w idx [] = Inr (w, idx, [])"
| "modules_loop ct ob w idx (m # ms) =
     sbind (module_step ct ob w (idx, m)) (\<lambda>(w1, idx1, m1).
       sbind (modules_loop ct ob w1 idx1 ms) (\<lambda>(w2, idx2, ms2). Inr (w2, idx2, m1 # ms2)))"

text \<open>\<open>SetundefPass::execute(args, design)\<close>: \<open>ct\<close> is \<open>CellTypes(design)\<close>,
  \<open>w0\<close> the default-constructed worker.\<close>

definition setundef_execute ::
  "celltypes \<Rightarrow> string list \<Rightarrow> Worker \<Rightarrow> nat \<Rightarrow> Module list \<Rightarrow> Fault + (nat \<times> Module list)" where
  "setundef_execute ct args w0 idx ms =
     sbind (setundef_options args w0) (\<lambda>ob.
       sbind (modules_loop ct ob (worker ob) idx ms) (\<lambda>(_, idx', ms'). Inr (idx', ms')))"

subsection \<open>Specification predicates\<close>

text \<open>\<open>mod_extends m m'\<close>: \<open>m'\<close> only adds cells and connections to
  \<open>m\<close> and keeps its processes; each phase of a module step does no more.\<close>

definition mod_extends :: "Module \<Rightarrow> Module \<Rightarrow> bool" where
  "mod_extends m m' \<longleftrightarrow> mod_procs m' = mod_procs m
     \<and> take (length (mod_cells m)) (mod_cells m') = mod_cells m
     \<and> take (length (mod_conns m)) (mod_conns m') = mod_conns m"

text \<open>What a successful run promises of each module, read from the source
  modules' signal specs: every original location keeps its width and its
  defined bits; the constant modes leave no undefined bit; the free modes
  leave no \<open>x\<close> bit.\<close>

text \<open>Every connection joins two signal specs of the same width, as
  \<open>Module::connect\<close> asserts when it adds one.\<close>

definition conns_wf :: "Module \<Rightarrow> bool" where
  "conns_wf m \<longleftrightarrow> (\<forall>(a, b)\<in>set (mod_conns m). length a = length b)"

definition pass_post :: "Mode \<Rightarrow> Module \<Rightarrow> Module \<Rightarrow> bool" where
  "pass_post md m m' \<longleftrightarrow>
     (\<forall>l\<in>set (sig_locs m). length (sig_at m' l) = length (sig_at m l)
        \<and> (\<forall>i<length (sig_at m l). \<not> is_undef_bit (sig_at m l ! i) \<longrightarrow> sig_at m' l ! i = sig_at m l ! i))
     \<and> (md \<in> {MODE_ZERO, MODE_ONE, MODE_RANDOM} \<longrightarrow>
          (\<forall>l\<in>set (sig_locs m'). \<forall>b\<in>set (sig_at m' l). \<not> is_undef_bit b))
     \<and> (free_mode md \<longrightarrow> (\<forall>l\<in>set (sig_locs m'). BConst Sx \<notin> set (sig_at m' l)))"

text \<open>The worker can always produce a bit: a constant mode, a non-zero
  random state, or a free mode, which draws no bits.\<close>

definition wk_ok :: "Worker \<Rightarrow> bool" where
  "wk_ok w \<longleftrightarrow> gen_ok w \<or> free_mode (next_bit_mode w)"

definition opts_ok :: "Opts \<Rightarrow> bool" where
  "opts_ok ob \<longleftrightarrow> siglist (worker ob) = [] \<and> (got_value ob \<longrightarrow> wk_ok (worker ob))"

text \<open>The fault a module raises in a step, in the order the code checks:
  the process check of the \<open>-undriven\<close> block (line 189), then the
  \<open>getPort(ID::Q)\<close> of the \<open>-init\<close> block (line 256).\<close>

definition module_fault :: "Opts \<Rightarrow> Module \<Rightarrow> Fault option" where
  "module_fault ob m =
     (if undriven_mode ob \<and> mod_procs m \<noteq> [] then Some (FatalError msg_procs)
      else if init_mode ob \<and> \<not> ff_have_q (mod_cells m) then Some OutOfRange
      else None)"

fun first_fault :: "Opts \<Rightarrow> Module list \<Rightarrow> Fault option" where
  "first_fault ob [] = None"
| "first_fault ob (m # ms) = (case module_fault ob m of None \<Rightarrow> first_fault ob ms | Some e \<Rightarrow> Some e)"

subsection \<open>Examples\<close>

definition ex_args :: "string list" where
  "ex_args = [''setundef'', ''-undriven'', ''-zero'']"

definition ex_w0 :: Worker where
  "ex_w0 = \<lparr>next_bit_mode = MODE_UNDEF, next_bit_state = 0, siglist = []\<rparr>"

subsection \<open>Lemmas: phases of a module step\<close>

lemma mod_extends_refl [simp]: "mod_extends m m"
  by (simp add: mod_extends_def)

lemma mod_extends_trans: "mod_extends a b \<Longrightarrow> mod_extends b c \<Longrightarrow> mod_extends a c"
  unfolding mod_extends_def by (metis take_prefix_trans)

lemma mod_extends_append:
  "mod_extends m (m\<lparr>mod_wires := ws, mod_cells := mod_cells m @ cs, mod_conns := mod_conns m @ cn\<rparr>)"
  by (simp add: mod_extends_def)

lemma mod_extends_loc:
  assumes "mod_extends m m'" and "loc_valid m l"
  shows "loc_valid m' l \<and> sig_at m' l = sig_at m l"
  using assms take_prefix_nth [of "mod_cells m" "mod_cells m'"] take_prefix_nth [of "mod_conns m" "mod_conns m'"]
  by (cases l) (auto simp: mod_extends_def)

lemma drive_chunks_extends:
  assumes "drive_chunks w cs (idx, m) = Inr (w', (idx', m'))"
  shows "mod_extends m m' \<and> next_bit_mode w' = next_bit_mode w \<and> siglist w' = siglist w"
  using assms
proof (induction cs arbitrary: w idx m)
  case Nil
  then show ?case by simp
next
  case (Cons c cs)
  show ?case
  proof (cases "free_mode (next_bit_mode w)")
    case True
    let ?r = "add_free_source (source_type (next_bit_mode w)) (undriven_site (next_bit_mode w)) (length c) (idx, m)"
    have r: "drive_chunks w cs (fst (snd ?r), module_connect (snd (snd ?r)) (c, fst ?r)) = Inr (w', (idx', m'))"
      using Cons.prems True by (simp add: Let_def)
    have e: "mod_extends m (module_connect (snd (snd ?r)) (c, fst ?r))"
      by (simp add: add_free_source_def module_connect_def Let_def mod_extends_def)
    show ?thesis using Cons.IH [OF r] e mod_extends_trans by blast
  next
    case False
    then obtain bits w1 where nb: "next_bits (length c) w = Inr (bits, w1)"
      and r: "drive_chunks w1 cs (idx, module_connect m (c, map BConst bits)) = Inr (w', (idx', m'))"
      using Cons.prems by (auto simp: sbind_eq_Inr split: prod.splits)
    have e: "mod_extends m (module_connect m (c, map BConst bits))"
      by (simp add: module_connect_def mod_extends_def)
    show ?thesis
      using Cons.IH [OF r] e mod_extends_trans next_bits_mode_kept [OF nb] by fastforce
  qed
qed

lemma rewrite_module_ok:
  assumes "gen_ok w"
  shows "\<exists>w' m'. rewrite_module w m = Inr (w', m') \<and> gen_ok w'"
proof -
  have "\<exists>s' m'. rewrite_locs worker_apply (sig_locs m) w m = Inr (s', m') \<and> gen_ok s'"
  proof (rule rewrite_locs_ok [where I = gen_ok, OF assms])
    fix s l x assume g: "gen_ok s"
    then have nf: "\<not> free_mode (next_bit_mode s)" by (auto simp: gen_ok_def free_mode_def)
    obtain vs s1 where "next_bits (count_undef x) s = Inr (vs, s1)" and "gen_ok s1"
      using next_bits_ok [OF g] by blast
    then show "\<exists>s1 y. worker_apply s l x = Inr (s1, y) \<and> gen_ok s1"
      using nf by (auto simp: worker_apply_def rewrite_bits_fill)
  qed
  then show ?thesis by (simp add: rewrite_module_def rewrite_sigspecs_def)
qed

lemma rewrite_module_frame:
  assumes "rewrite_module w m = Inr (w', m')" and "\<not> free_mode (next_bit_mode w)"
  shows "sig_locs m' = sig_locs m \<and> next_bit_mode w' = next_bit_mode w \<and> siglist w' = siglist w
       \<and> (\<forall>l. loc_valid m l \<longrightarrow> length (sig_at m' l) = length (sig_at m l)
             \<and> (\<forall>i<length (sig_at m l). \<not> is_undef_bit (sig_at m l ! i) \<longrightarrow> sig_at m' l ! i = sig_at m l ! i))"
proof -
  let ?I = "\<lambda>s. next_bit_mode s = next_bit_mode w \<and> siglist s = siglist w"
  have r: "rewrite_sigspecs worker_apply w m = Inr (w', m')" using assms(1) by (simp add: rewrite_module_def)
  have step: "?I s1" if "?I s" "worker_apply s l x = Inr (s1, y)" for s l x s1 y
    using that assms(2) rewrite_bits_mode [of s x s1 y] by (simp add: worker_apply_def)
  have w': "?I w'"
    using rewrite_locs_inv [where I = ?I] r step unfolding rewrite_sigspecs_def by blast
  have loc: "length (sig_at m' l) = length (sig_at m l)
             \<and> (\<forall>i<length (sig_at m l). \<not> is_undef_bit (sig_at m l ! i) \<longrightarrow> sig_at m' l ! i = sig_at m l ! i)"
    if "loc_valid m l" for l
  proof (rule rewrite_sigspecs_post [where I = ?I, OF r _ _ that])
    show "?I w" by simp
  next
    fix s l x s1 y assume i: "?I s" and ap: "worker_apply s l x = Inr (s1, y)"
    then have rb: "rewrite_bits s x = Inr (s1, y)" using assms(2) by (simp add: worker_apply_def)
    show "?I s1 \<and> length y = length x \<and> (\<forall>i<length x. \<not> is_undef_bit (x ! i) \<longrightarrow> y ! i = x ! i)"
      using rewrite_bits_post(1,2) [OF rb] step [OF i ap] by simp
  qed
  show ?thesis using rewrite_sigspecs_shape [OF r] w' loc by blast
qed

lemma undriven_step_frame:
  assumes "undriven_step ct w (idx, m) = Inr (w', (idx', m'))"
  shows "mod_extends m m' \<and> next_bit_mode w' = next_bit_mode w \<and> siglist w' = siglist w"
proof -
  have "mod_procs m = []" and d: "drive_chunks w (chunks (undriven_bits ct m)) (idx, m) = Inr (w', (idx', m'))"
    using assms by (simp_all add: undriven_step_def split: if_splits)
  show ?thesis by (rule drive_chunks_extends [OF d])
qed

lemma init_step_frame:
  assumes "init_step w (idx, m) = Inr (w', (idx', m'))"
  shows "mod_extends m m' \<and> next_bit_mode w' = next_bit_mode w \<and> siglist w' = siglist w \<and> idx' = idx"
proof -
  obtain ff0 where "m' = m\<lparr>mod_wires := mod_wires m'\<rparr>" "next_bit_mode w' = next_bit_mode w"
      "siglist w' = siglist w" "idx' = idx"
    using init_step_post [OF assms] by metis
  moreover from this(1) have "mod_extends m m'"
    unfolding mod_extends_def by (cases m; cases m') simp
  ultimately show ?thesis by simp
qed

lemma run_cells_clean:
  "c \<in> set (run_cells md idx ws) \<Longrightarrow> pc \<in> set (cell_conns c) \<Longrightarrow> BConst Sx \<notin> set (snd pc)"
  by (induction ws arbitrary: idx) (auto simp: free_cell_def wire_sig_def)

lemma coalesce_loop_clean:
  assumes "coalesce_loop md 0 sig (idx, m) = (sig', (idx', m'))" and "loc_valid m' l"
  shows "loc_valid m l \<or> BConst Sx \<notin> set (sig_at m' l)"
proof (cases l)
  case (LocCell ci pi)
  note st = coalesce_loop_state [OF assms(1)]
  show ?thesis
  proof (cases "ci < length (mod_cells m)")
    case True
    then show ?thesis using assms(2) st LocCell by (auto simp: nth_append)
  next
    case False
    let ?c = "run_cells md idx (map snd (x_runs 0 (drop 0 sig))) ! (ci - length (mod_cells m))"
    have c: "mod_cells m' ! ci = ?c" "?c \<in> set (run_cells md idx (map snd (x_runs 0 (drop 0 sig))))"
      using assms(2) st(2) LocCell False by (auto simp: nth_append)
    have "cell_conns ?c ! pi \<in> set (cell_conns ?c)" using assms(2) LocCell c(1) by simp
    then show ?thesis using run_cells_clean [OF c(2)] LocCell c(1) by simp
  qed
qed (use assms coalesce_loop_state [OF assms(1)] in simp_all)

lemma coalesce_sig_clean:
  assumes "coalesce_sig md (idx, mk) l0 = (idx1, m1)" and "loc_valid a l0"
    and "\<forall>l. loc_valid a l \<longrightarrow> loc_valid mk l"
    and "\<forall>l. loc_valid mk l \<longrightarrow> loc_valid a l \<or> BConst Sx \<notin> set (sig_at mk l)"
  shows "(\<forall>l. loc_valid a l \<longrightarrow> loc_valid m1 l)
       \<and> (\<forall>l. loc_valid m1 l \<longrightarrow> loc_valid a l \<or> BConst Sx \<notin> set (sig_at m1 l))"
proof -
  obtain sig' i' mL where r0: "coalesce_loop md 0 (sig_at mk l0) (idx, mk) = (sig', (i', mL))"
    by (metis prod.exhaust)
  then have "idx1 = i'" and m1: "m1 = sig_put mL l0 sig'"
    using assms(1) by (simp_all add: coalesce_sig_def)
  then have r: "coalesce_loop md 0 (sig_at mk l0) (idx, mk) = (sig', (idx1, mL))" using r0 by simp
  have v0: "loc_valid mL l0" using coalesce_loop_loc [OF r] assms(2,3) by blast
  have A: "\<forall>l. loc_valid a l \<longrightarrow> loc_valid m1 l"
    using coalesce_loop_loc [OF r] assms(3) m1 by simp
  have B: "loc_valid a l \<or> BConst Sx \<notin> set (sig_at m1 l)" if v: "loc_valid m1 l" for l
  proof (cases "l = l0")
    case True
    then show ?thesis using assms(2) by simp
  next
    case False
    have vL: "loc_valid mL l" using v m1 by simp
    have eq: "sig_at m1 l = sig_at mL l" using sig_at_put [OF v0 vL] False m1 by simp
    show ?thesis
    proof (cases "loc_valid mk l")
      case True
      then show ?thesis using coalesce_loop_loc [OF r True] assms(4) eq by simp
    next
      case False
      then show ?thesis using coalesce_loop_clean [OF r vL] eq by simp
    qed
  qed
  show ?thesis using A B by blast
qed

lemma coalesce_all_clean:
  assumes "coalesce_all md ls (idx, mk) = (idx', m')" and "\<forall>l\<in>set ls. loc_valid a l"
    and "\<forall>l. loc_valid a l \<longrightarrow> loc_valid mk l"
    and "\<forall>l. loc_valid mk l \<longrightarrow> loc_valid a l \<or> BConst Sx \<notin> set (sig_at mk l)"
  shows "\<forall>l. loc_valid m' l \<longrightarrow> loc_valid a l \<or> BConst Sx \<notin> set (sig_at m' l)"
  using assms
proof (induction ls arbitrary: idx mk)
  case Nil
  then show ?case by (simp add: coalesce_all_def)
next
  case (Cons l0 ls)
  obtain idx1 m1 where s: "coalesce_sig md (idx, mk) l0 = (idx1, m1)" by (metis prod.exhaust)
  have r: "coalesce_all md ls (idx1, m1) = (idx', m')" using Cons.prems(1) s by (simp add: coalesce_all_def)
  note st = coalesce_sig_clean [OF s _ Cons.prems(3,4)]
  show ?case using Cons.IH [OF r] Cons.prems(2) st by simp
qed

lemma conns_wf_frame:
  assumes "conns_wf m" and "length (mod_conns m') = length (mod_conns m)"
    and "\<And>l. loc_valid m l \<Longrightarrow> length (sig_at m' l) = length (sig_at m l)"
  shows "conns_wf m'"
proof -
  have all: "\<forall>x\<in>set (mod_conns m). case x of (a, b) \<Rightarrow> length a = length b"
    using assms(1) unfolding conns_wf_def .
  have e: "length (fst (mod_conns m' ! i)) = length (snd (mod_conns m' ! i))"
    if im: "i < length (mod_conns m)" for i
  proof -
    have "case mod_conns m ! i of (a, b) \<Rightarrow> length a = length b"
      by (rule bspec [OF all nth_mem [OF im]])
    then have e: "length (fst (mod_conns m ! i)) = length (snd (mod_conns m ! i))"
      by (simp add: case_prod_beta)
    have "length (sig_at m' (LocConnL i)) = length (sig_at m (LocConnL i))"
      by (rule assms(3)) (simp add: im)
    moreover have "length (sig_at m' (LocConnR i)) = length (sig_at m (LocConnR i))"
      by (rule assms(3)) (simp add: im)
    ultimately show ?thesis using e by simp
  qed
  show ?thesis unfolding conns_wf_def
  proof
    fix p assume "p \<in> set (mod_conns m')"
    then obtain i where i: "i < length (mod_conns m')" "p = mod_conns m' ! i" by (metis in_set_conv_nth)
    then show "case p of (a, b) \<Rightarrow> length a = length b" using e [of i] assms(2) by (simp add: case_prod_beta)
  qed
qed

lemma conns_wf_append:
  "conns_wf m \<Longrightarrow> map length ds = map length cs \<Longrightarrow> conns_wf (m\<lparr>mod_conns := mod_conns m @ zip cs ds\<rparr>)"
  using zip_fst_lengths [of ds cs] by (auto simp: conns_wf_def)

lemma undriven_step_wf:
  assumes "undriven_step ct w (idx, m) = Inr (w', (idx', m'))" and "conns_wf m"
  shows "conns_wf m'"
proof -
  have "drive_chunks w (chunks (undriven_bits ct m)) (idx, m) = Inr (w', (idx', m'))"
    using assms(1) by (simp add: undriven_step_def split: if_splits)
  then obtain ds where c: "mod_conns m' = mod_conns m @ zip (chunks (undriven_bits ct m)) ds"
    and l: "map length ds = map length (chunks (undriven_bits ct m))"
    using drive_chunks_conns by blast
  have "conns_wf (m\<lparr>mod_conns := mod_conns m @ zip (chunks (undriven_bits ct m)) ds\<rparr>)"
    by (rule conns_wf_append [OF assms(2) l])
  then show ?thesis using c by (simp add: conns_wf_def)
qed

lemma init_step_wf:
  assumes "init_step w (idx, m) = Inr (w', (idx', m'))"
  shows "mod_conns m' = mod_conns m"
proof -
  obtain ff0 where "m' = m\<lparr>mod_wires := mod_wires m'\<rparr>"
    using init_step_post [OF assms] by metis
  then show ?thesis by (metis Module.select_convs(5) Module.surjective Module.update_convs(2))
qed

lemma sig_locs_conns:
  assumes "sig_locs m' = sig_locs m"
  shows "length (mod_conns m') = length (mod_conns m)"
proof -
  have "\<forall>i. (i < length (mod_conns m')) = (i < length (mod_conns m))"
    using arg_cong [OF assms, of "\<lambda>ls. LocConnL _ \<in> set ls"] by simp
  then show ?thesis by (metis less_irrefl nat_neq_iff)
qed

lemma coalesce_all_conns:
  "coalesce_all md ls (idx, m) = (idx', m') \<Longrightarrow> length (mod_conns m') = length (mod_conns m)"
proof (induction ls arbitrary: idx m)
  case Nil
  then show ?case by (simp add: coalesce_all_def)
next
  case (Cons l ls)
  obtain sig' i1 mL where r: "coalesce_loop md 0 (sig_at m l) (idx, m) = (sig', (i1, mL))"
    by (metis prod.exhaust)
  have s: "coalesce_sig md (idx, m) l = (i1, sig_put mL l sig')" using r by (simp add: coalesce_sig_def)
  have "coalesce_all md ls (i1, sig_put mL l sig') = (idx', m')"
    using Cons.prems s by (simp add: coalesce_all_def)
  then show ?case using Cons.IH coalesce_loop_state(5) [OF r] by simp
qed

lemma module_step_Inr:
  assumes "module_step ct ob w (idx, m) = Inr (w', (idx', m'))"
  obtains w2 idx2 m2 w3 m3 where "mod_extends m m2" and "conns_wf m \<Longrightarrow> conns_wf m2"
    and "next_bit_mode w2 = next_bit_mode w"
    and "siglist w2 = siglist w" and "rewrite_module w2 m2 = Inr (w3, m3)"
    and "free_mode (next_bit_mode w3) \<Longrightarrow>
           w' = w3\<lparr>siglist := []\<rparr> \<and> coalesce_all (next_bit_mode w3) (siglist w3) (idx2, m3) = (idx', m')"
    and "\<not> free_mode (next_bit_mode w3) \<Longrightarrow> w' = w3 \<and> idx' = idx2 \<and> m' = m3"
proof -
  obtain w1 st1 where u: "(if undriven_mode ob then undriven_step ct w (idx, m) else Inr (w, (idx, m))) = Inr (w1, st1)"
    and r1: "sbind (if init_mode ob then init_step w1 st1 else Inr (w1, st1)) (\<lambda>(w2, st2).
         sbind (rewrite_module w2 (snd st2)) (\<lambda>(w3, m3).
           if free_mode (next_bit_mode w3)
           then Inr (w3\<lparr>siglist := []\<rparr>, coalesce_all (next_bit_mode w3) (siglist w3) (fst st2, m3))
           else Inr (w3, (fst st2, m3)))) = Inr (w', (idx', m'))"
    using assms unfolding module_step_def by (elim sbind_Inr_pairE) simp
  obtain idx1 m1 where st1: "st1 = (idx1, m1)" by (cases st1)
  obtain w2 st2 where i: "(if init_mode ob then init_step w1 st1 else Inr (w1, st1)) = Inr (w2, st2)"
    and r2: "sbind (rewrite_module w2 (snd st2)) (\<lambda>(w3, m3).
           if free_mode (next_bit_mode w3)
           then Inr (w3\<lparr>siglist := []\<rparr>, coalesce_all (next_bit_mode w3) (siglist w3) (fst st2, m3))
           else Inr (w3, (fst st2, m3))) = Inr (w', (idx', m'))"
    using r1 by (elim sbind_Inr_pairE) simp
  obtain idx2 m2 where st2: "st2 = (idx2, m2)" by (cases st2)
  obtain w3 m3 where rw: "rewrite_module w2 m2 = Inr (w3, m3)"
    using r2 unfolding st2 by (elim sbind_Inr_pairE) simp
  have fin: "(if free_mode (next_bit_mode w3)
           then Inr (w3\<lparr>siglist := []\<rparr>, coalesce_all (next_bit_mode w3) (siglist w3) (idx2, m3))
           else Inr (w3, (idx2, m3))) = (Inr (w', (idx', m')) :: Fault + _)"
    using r2 rw unfolding st2 by (simp split: if_splits)
  have f1: "mod_extends m m1 \<and> next_bit_mode w1 = next_bit_mode w \<and> siglist w1 = siglist w"
    using u st1 undriven_step_frame by (auto split: if_splits)
  have f2: "mod_extends m1 m2 \<and> next_bit_mode w2 = next_bit_mode w1 \<and> siglist w2 = siglist w1"
    using i st1 st2 init_step_frame by (auto split: if_splits)
  have c1: "conns_wf m \<Longrightarrow> conns_wf m1"
    using u st1 undriven_step_wf by (auto split: if_splits)
  have c2: "conns_wf m1 \<Longrightarrow> conns_wf m2"
    using i st1 st2 init_step_wf by (auto simp: conns_wf_def split: if_splits)
  show ?thesis
    using that [OF mod_extends_trans [of m m1 m2] _ _ _ rw] f1 f2 fin c1 c2 by (auto split: if_splits)
qed

lemma rewrite_module_free_mode:
  "free_mode (next_bit_mode w) \<Longrightarrow> rewrite_module w m = Inr (w\<lparr>siglist := siglist w @ sig_locs m\<rparr>, m)"
  by (simp add: rewrite_module_def rewrite_sigspecs_def rewrite_locs_free)

lemma undef_not_x: "\<not> is_undef_bit b \<Longrightarrow> b \<noteq> BConst Sx"
  by (auto simp: is_undef_bit_def)

lemma module_step_post:
  assumes "module_step ct ob w (idx, m) = Inr (w', (idx', m'))" and "siglist w = []"
  shows "pass_post (next_bit_mode w) m m' \<and> next_bit_mode w' = next_bit_mode w \<and> siglist w' = []"
proof -
  obtain m2 w2 w3 m3 idx2 where e: "mod_extends m m2" and "conns_wf m \<Longrightarrow> conns_wf m2" and md2: "next_bit_mode w2 = next_bit_mode w"
    and sl2: "siglist w2 = siglist w" and rw: "rewrite_module w2 m2 = Inr (w3, m3)"
    and fr: "free_mode (next_bit_mode w3) \<Longrightarrow>
           w' = w3\<lparr>siglist := []\<rparr> \<and> coalesce_all (next_bit_mode w3) (siglist w3) (idx2, m3) = (idx', m')"
    and nf: "\<not> free_mode (next_bit_mode w3) \<Longrightarrow> w' = w3 \<and> idx' = idx2 \<and> m' = m3"
    by (rule module_step_Inr [OF assms(1)]) blast
  have old: "loc_valid m2 l \<and> sig_at m2 l = sig_at m l" if "l \<in> set (sig_locs m)" for l
    using mod_extends_loc [OF e] that by simp
  show ?thesis
  proof (cases "free_mode (next_bit_mode w)")
    case True
    have eq: "rewrite_module w2 m2 = Inr (w2\<lparr>siglist := siglist w2 @ sig_locs m2\<rparr>, m2)"
      by (rule rewrite_module_free_mode) (simp add: True md2)
    from rw eq have wm: "w3 = w2\<lparr>siglist := siglist w2 @ sig_locs m2\<rparr> \<and> m3 = m2" by (metis sum.inject(2) prod.inject)
    then have m3: "m3 = m2" by simp
    have w3: "w3 = w2\<lparr>siglist := sig_locs m2\<rparr>" using wm sl2 assms(2) by simp
    have fm: "free_mode (next_bit_mode w3)" using True md2 w3 by simp
    have ca: "coalesce_all (next_bit_mode w) (sig_locs m2) (idx2, m2) = (idx', m')"
      using fr [OF fm] w3 m3 md2 by simp
    have post: "loc_valid m' l \<and> coalesced (sig_at m2 l) (sig_at m' l)" if "loc_valid m2 l" for l
      using coalesce_all_post [OF ca distinct_sig_locs _ that] that by simp
    have clean: "\<forall>l. loc_valid m' l \<longrightarrow> loc_valid m2 l \<or> BConst Sx \<notin> set (sig_at m' l)"
      by (rule coalesce_all_clean [OF ca]) simp_all
    have p1: "\<forall>l\<in>set (sig_locs m). length (sig_at m' l) = length (sig_at m l)
        \<and> (\<forall>i<length (sig_at m l). \<not> is_undef_bit (sig_at m l ! i) \<longrightarrow> sig_at m' l ! i = sig_at m l ! i)"
      using old post by (auto simp: coalesced_def dest: undef_not_x)
    have p3: "\<forall>l\<in>set (sig_locs m'). BConst Sx \<notin> set (sig_at m' l)"
      using clean post by (auto simp: coalesced_def)
    have "next_bit_mode w \<notin> {MODE_ZERO, MODE_ONE, MODE_RANDOM}" using True by (auto simp: free_mode_def)
    then show ?thesis using p1 p3 fr [OF fm] w3 md2 by (simp add: pass_post_def)
  next
    case False
    have nf2: "\<not> free_mode (next_bit_mode w2)" using False md2 by simp
    note rf = rewrite_module_frame [OF rw nf2]
    have fin: "w' = w3" "m' = m3" using nf rf md2 False by simp_all
    have p1: "\<forall>l\<in>set (sig_locs m). length (sig_at m' l) = length (sig_at m l)
        \<and> (\<forall>i<length (sig_at m l). \<not> is_undef_bit (sig_at m l ! i) \<longrightarrow> sig_at m' l ! i = sig_at m l ! i)"
      using old rf fin by auto
    have p2: "\<forall>l\<in>set (sig_locs m'). \<forall>b\<in>set (sig_at m' l). \<not> is_undef_bit b"
      if "next_bit_mode w \<in> {MODE_ZERO, MODE_ONE, MODE_RANDOM}"
    proof
      fix l assume "l \<in> set (sig_locs m')"
      then have "loc_valid m2 l" using rf fin by simp
      then show "\<forall>b\<in>set (sig_at m' l). \<not> is_undef_bit b"
        using rewrite_module_post [OF rw nf2 _ \<open>loc_valid m2 l\<close>] that md2 fin by auto
    qed
    show ?thesis using p1 p2 False rf fin assms(2) md2 sl2 by (simp add: pass_post_def)
  qed
qed

lemma module_step_wf:
  assumes "module_step ct ob w (idx, m) = Inr (w', (idx', m'))" and "siglist w = []" and "conns_wf m"
  shows "conns_wf m'"
proof -
  obtain m2 w2 w3 m3 idx2 where wf2: "conns_wf m2" and md2: "next_bit_mode w2 = next_bit_mode w"
    and sl2: "siglist w2 = siglist w" and rw: "rewrite_module w2 m2 = Inr (w3, m3)"
    and fr: "free_mode (next_bit_mode w3) \<Longrightarrow>
           w' = w3\<lparr>siglist := []\<rparr> \<and> coalesce_all (next_bit_mode w3) (siglist w3) (idx2, m3) = (idx', m')"
    and nf: "\<not> free_mode (next_bit_mode w3) \<Longrightarrow> w' = w3 \<and> idx' = idx2 \<and> m' = m3"
    by (rule module_step_Inr [OF assms(1)]) (use assms(3) in blast)+
  show ?thesis
  proof (cases "free_mode (next_bit_mode w)")
    case True
    have eq: "rewrite_module w2 m2 = Inr (w2\<lparr>siglist := siglist w2 @ sig_locs m2\<rparr>, m2)"
      by (rule rewrite_module_free_mode) (simp add: True md2)
    from rw eq have wm: "w3 = w2\<lparr>siglist := siglist w2 @ sig_locs m2\<rparr> \<and> m3 = m2" by (metis sum.inject(2) prod.inject)
    have fm: "free_mode (next_bit_mode w3)" using True md2 wm by simp
    have ca: "coalesce_all (next_bit_mode w) (sig_locs m2) (idx2, m2) = (idx', m')"
      using fr [OF fm] wm md2 sl2 assms(2) by simp
    have len: "length (sig_at m' l) = length (sig_at m2 l)" if "loc_valid m2 l" for l
      using coalesce_all_post [OF ca distinct_sig_locs _ that] that by (simp add: coalesced_def)
    show ?thesis
      by (rule conns_wf_frame [OF wf2 coalesce_all_conns [OF ca] len])
  next
    case False
    have nf2: "\<not> free_mode (next_bit_mode w2)" using False md2 by simp
    note rf = rewrite_module_frame [OF rw nf2]
    have m': "m' = m3" using nf rf md2 False by simp
    have len: "length (sig_at m' l) = length (sig_at m2 l)" if "loc_valid m2 l" for l
      using rf m' that by blast
    show ?thesis
      by (rule conns_wf_frame [OF wf2 _ len]) (use rf m' sig_locs_conns [of m3 m2] in simp)
  qed
qed

lemma undriven_step_ok:
  assumes "wk_ok w" and "mod_procs m = []"
  shows "\<exists>w' idx' m'. undriven_step ct w (idx, m) = Inr (w', (idx', m')) \<and> wk_ok w'
           \<and> next_bit_mode w' = next_bit_mode w
           \<and> (\<not> free_mode (next_bit_mode w) \<longrightarrow> mod_cells m' = mod_cells m)"
proof (cases "free_mode (next_bit_mode w)")
  case True
  then show ?thesis using assms(2) by (simp add: undriven_step_def drive_chunks_free wk_ok_def)
next
  case False
  then have g: "gen_ok w" using assms(1) by (simp add: wk_ok_def)
  obtain bs w1 where nb: "next_bits (length (concat (chunks (undriven_bits ct m)))) w = Inr (bs, w1)"
    and "gen_ok w1" using next_bits_ok [OF g] by blast
  moreover have "next_bit_mode w1 = next_bit_mode w"
    using next_bits_mode_kept [OF nb] by simp
  ultimately show ?thesis using assms(2) False
    by (simp add: undriven_step_def drive_chunks_bits wk_ok_def)
qed

lemma wk_ok_rewrite:
  assumes "wk_ok w"
  shows "\<exists>w' m'. rewrite_module w m = Inr (w', m') \<and> wk_ok w' \<and> next_bit_mode w' = next_bit_mode w"
proof (cases "free_mode (next_bit_mode w)")
  case True
  then show ?thesis by (simp add: rewrite_module_free_mode wk_ok_def)
next
  case False
  then have g: "gen_ok w" using assms by (simp add: wk_ok_def)
  obtain w' m' where r: "rewrite_module w m = Inr (w', m')" and "gen_ok w'"
    using rewrite_module_ok [OF g] by blast
  then show ?thesis using rewrite_module_frame [OF r False] by (simp add: wk_ok_def)
qed

lemma module_step_result:
  assumes "wk_ok w" and "init_mode ob \<longrightarrow> \<not> free_mode (next_bit_mode w)"
  shows "(if undriven_mode ob \<and> mod_procs m \<noteq> [] then module_step ct ob w (idx, m) = Inl (FatalError msg_procs)
          else if init_mode ob \<and> \<not> ff_have_q (mod_cells m) then module_step ct ob w (idx, m) = Inl OutOfRange
          else \<exists>w' idx' m'. module_step ct ob w (idx, m) = Inr (w', (idx', m')) \<and> wk_ok w'
                 \<and> next_bit_mode w' = next_bit_mode w)"
proof -
  obtain w1 idx1 m1 where u: "(if undriven_mode ob then undriven_step ct w (idx, m) else Inr (w, (idx, m)))
      = (if undriven_mode ob \<and> mod_procs m \<noteq> [] then Inl (FatalError msg_procs) else Inr (w1, (idx1, m1)))"
    and ok1: "wk_ok w1" and md1: "next_bit_mode w1 = next_bit_mode w"
    and c1: "\<not> free_mode (next_bit_mode w) \<longrightarrow> mod_cells m1 = mod_cells m"
  proof (cases "undriven_mode ob \<and> mod_procs m = []")
    case True
    then show ?thesis using that undriven_step_ok [OF assms(1), of m ct idx] by auto
  next
    case False
    then show ?thesis using that [of w idx m] assms(1) by (auto simp: undriven_step_def)
  qed
  show ?thesis
  proof (cases "undriven_mode ob \<and> mod_procs m \<noteq> []")
    case True
    then show ?thesis using u by (simp add: module_step_def)
  next
    case nu: False
    note nuif = if_not_P [OF nu, where x = "module_step ct ob w (idx, m) = Inl (FatalError msg_procs)"]
    have u': "(if undriven_mode ob then undriven_step ct w (idx, m) else Inr (w, (idx, m))) = Inr (w1, (idx1, m1))"
      using u nu by simp
    show ?thesis
    proof (cases "init_mode ob")
      case True
      have nf: "\<not> free_mode (next_bit_mode w)" using assms(2) True by simp
      have g: "gen_ok w1" using ok1 nf md1 by (simp add: wk_ok_def)
      have cq: "ff_have_q (mod_cells m1) = ff_have_q (mod_cells m)" using c1 nf by simp
      show ?thesis
      proof (cases "ff_have_q (mod_cells m)")
        case False
        then show ?thesis unfolding nuif using nu True u' init_step_fails [of m1 w1 idx1] cq by (simp add: module_step_def)
      next
        case q: True
        then obtain w2 m2 where i: "init_step w1 (idx1, m1) = Inr (w2, (idx1, m2))" and g2: "gen_ok w2"
          using init_step_ok [OF g, of m1 idx1] cq by auto
        have md2: "next_bit_mode w2 = next_bit_mode w"
          using init_step_frame [OF i] md1 by simp
        obtain w3 m3 where rw: "rewrite_module w2 m2 = Inr (w3, m3)" and ok3: "wk_ok w3"
          and md3: "next_bit_mode w3 = next_bit_mode w2"
          using wk_ok_rewrite [of w2 m2] g2 by (auto simp: wk_ok_def)
        show ?thesis unfolding nuif using nu True q u' i rw ok3 md3 md2 nf
          by (simp add: module_step_def wk_ok_def)
      qed
    next
      case False
      obtain w3 m3 where rw: "rewrite_module w1 m1 = Inr (w3, m3)" and ok3: "wk_ok w3"
        and md3: "next_bit_mode w3 = next_bit_mode w1"
        using wk_ok_rewrite [OF ok1] by blast
      show ?thesis unfolding nuif using nu False u' rw ok3 md3 md1
        by (auto simp: module_step_def wk_ok_def)
    qed
  qed
qed

subsection \<open>Lemmas: options\<close>

lemma random_init_wk_ok:
  assumes "random_init seed w = Inr w'"
  shows "wk_ok w' \<and> siglist w' = siglist w"
proof (cases "word_of_int (atoi seed + 1) = (0::u32)")
  case True
  then show ?thesis using assms random_init_zero by simp
next
  case False
  let ?w1 = "w\<lparr>next_bit_mode := MODE_RANDOM, next_bit_state := word_of_int (atoi seed + 1)\<rparr>"
  have "gen_ok ?w1" using False by (simp add: gen_ok_def)
  then obtain bs w2 where nb: "next_bits 10 ?w1 = Inr (bs, w2)" and g: "gen_ok w2"
    using next_bits_ok by blast
  have "w' = w2" using assms nb by (simp add: random_init_def)
  then show ?thesis using g next_bits_mode_kept [OF nb] by (simp add: wk_ok_def)
qed

lemma opts_ok_set_mode:
  "md \<noteq> MODE_RANDOM \<Longrightarrow> opts_ok ob \<Longrightarrow> opts_ok (set_mode md ob)"
  by (cases md) (simp_all add: opts_ok_def wk_ok_def gen_ok_def free_mode_def set_mode_def)

lemma opts_ok_flags [simp]:
  "opts_ok (ob\<lparr>undriven_mode := b\<rparr>) = opts_ok ob" "opts_ok (ob\<lparr>init_mode := b\<rparr>) = opts_ok ob"
  by (simp_all add: opts_ok_def)

lemma opts_ok_random:
  "random_init seed (worker ob) = Inr w \<Longrightarrow> opts_ok ob \<Longrightarrow> opts_ok (ob\<lparr>got_value := True, worker := w\<rparr>)"
  by (auto simp: opts_ok_def dest: random_init_wk_ok)

lemma parse_args_step:
  assumes "parse_args args argidx ob = Inr (ob', k)" and "opts_ok ob"
  shows "ob' = ob \<or> (\<exists>ob1. opts_ok ob1 \<and> (parse_args args (Suc argidx) ob1 = Inr (ob', k)
                           \<or> parse_args args (Suc (Suc argidx)) ob1 = Inr (ob', k)))"
  using assms
  apply (subst (asm) parse_args.simps)
  apply (simp add: Let_def split: if_split_asm)
  apply (auto simp: sbind_eq_Inr intro: opts_ok_set_mode opts_ok_random)
  done

lemma parse_args_opts_ok:
  "parse_args args argidx ob = Inr (ob', k) \<Longrightarrow> opts_ok ob \<Longrightarrow> opts_ok ob'"
proof (induction "length args - argidx" arbitrary: argidx ob rule: less_induct)
  case less
  show ?case
  proof (cases "argidx < length args")
    case False
    then show ?thesis using less.prems by (simp add: parse_args_stop)
  next
    case True
    from parse_args_step [OF less.prems] show ?thesis
    proof (elim disjE exE conjE)
      fix ob1 assume "opts_ok ob1" "parse_args args (Suc argidx) ob1 = Inr (ob', k)"
      then show ?thesis using less.hyps [of "Suc argidx"] True by simp
    next
      fix ob1 assume "opts_ok ob1" "parse_args args (Suc (Suc argidx)) ob1 = Inr (ob', k)"
      then show ?thesis using less.hyps [of "Suc (Suc argidx)"] True by simp
    qed (use less.prems in simp)
  qed
qed

lemma setundef_options_wk_ok:
  assumes "setundef_options args w0 = Inr ob"
  shows "wk_ok (worker ob) \<and> siglist (worker ob) = []
         \<and> (init_mode ob \<longrightarrow> \<not> free_mode (next_bit_mode (worker ob)))"
proof -
  obtain ob1 k where p: "parse_args args 1 (init_opts w0) = Inr (ob1, k)"
    and r: "sbind (extra_args args k) (\<lambda>_. if \<not> got_value ob1 then Inl (CmdError msg_no_value)
         else if init_mode ob1 \<and> free_mode (next_bit_mode (worker ob1)) then Inl (CmdError msg_exclusive)
         else Inr ob1) = Inr ob"
    using assms by (auto simp: setundef_options_def sbind_eq_Inr)
  have "opts_ok ob1"
    by (rule parse_args_opts_ok [OF p]) (simp add: init_opts_def opts_ok_def)
  then show ?thesis using r by (auto simp: sbind_eq_Inr opts_ok_def split: if_splits)
qed

subsection \<open>Lemmas: the module loop\<close>

lemma module_step_fault:
  assumes "wk_ok w" and "init_mode ob \<longrightarrow> \<not> free_mode (next_bit_mode w)"
  shows "(case module_fault ob m of
            None \<Rightarrow> \<exists>w' idx' m'. module_step ct ob w (idx, m) = Inr (w', (idx', m')) \<and> wk_ok w'
                     \<and> next_bit_mode w' = next_bit_mode w
          | Some e \<Rightarrow> module_step ct ob w (idx, m) = Inl e)"
  using module_step_result [OF assms, where m = m and ct = ct and idx = idx] by (simp add: module_fault_def split: if_splits)

lemma modules_loop_fault:
  assumes "wk_ok w" and "init_mode ob \<longrightarrow> \<not> free_mode (next_bit_mode w)"
  shows "(case first_fault ob ms of
            None \<Rightarrow> \<exists>w' idx' ms'. modules_loop ct ob w idx ms = Inr (w', idx', ms')
          | Some e \<Rightarrow> modules_loop ct ob w idx ms = Inl e)"
  using assms
proof (induction ms arbitrary: w idx)
  case Nil
  then show ?case by simp
next
  case (Cons m ms)
  note r = module_step_fault [OF Cons.prems, where m = m and ct = ct and idx = idx]
  show ?case
  proof (cases "module_fault ob m")
    case None
    then obtain w1 idx1 m1 where s: "module_step ct ob w (idx, m) = Inr (w1, (idx1, m1))"
      and ok: "wk_ok w1" and md: "next_bit_mode w1 = next_bit_mode w" using r by auto
    note IH = Cons.IH [OF ok, of idx1]
    show ?thesis using IH None s md Cons.prems(2) by (auto split: option.splits)
  next
    case (Some e)
    then show ?thesis using r by simp
  qed
qed

lemma modules_loop_post:
  assumes "modules_loop ct ob w idx ms = Inr (w', idx', ms')" and "siglist w = []"
  shows "length ms' = length ms \<and> (\<forall>i<length ms. pass_post (next_bit_mode w) (ms ! i) (ms' ! i))
         \<and> next_bit_mode w' = next_bit_mode w \<and> siglist w' = []"
  using assms
proof (induction ms arbitrary: w idx w' idx' ms')
  case Nil
  then show ?case by simp
next
  case (Cons m ms)
  obtain w1 idx1 m1 w2 idx2 ms2 where s: "module_step ct ob w (idx, m) = Inr (w1, (idx1, m1))"
    and l: "modules_loop ct ob w1 idx1 ms = Inr (w2, idx2, ms2)" and e: "(w', idx', ms') = (w2, idx2, m1 # ms2)"
    using Cons.prems(1) by (auto simp: sbind_eq_Inr split: prod.splits)
  have p: "pass_post (next_bit_mode w) m m1 \<and> next_bit_mode w1 = next_bit_mode w \<and> siglist w1 = []"
    by (rule module_step_post [OF s Cons.prems(2)])
  have IH: "length ms2 = length ms \<and> (\<forall>i<length ms. pass_post (next_bit_mode w1) (ms ! i) (ms2 ! i))
         \<and> next_bit_mode w2 = next_bit_mode w1 \<and> siglist w2 = []"
    using Cons.IH [OF l] p by simp
  show ?case
  proof (intro conjI allI impI)
    fix i assume "i < length (m # ms)"
    then show "pass_post (next_bit_mode w) ((m # ms) ! i) (ms' ! i)"
      using p IH e by (cases i) auto
  qed (use p IH e in auto)
qed

lemma modules_loop_wf:
  assumes "modules_loop ct ob w idx ms = Inr (w', idx', ms')" and "siglist w = []"
    and "\<forall>m\<in>set ms. conns_wf m"
  shows "\<forall>m'\<in>set ms'. conns_wf m'"
  using assms
proof (induction ms arbitrary: w idx w' idx' ms')
  case Nil
  then show ?case by simp
next
  case (Cons m ms)
  obtain w1 idx1 m1 w2 idx2 ms2 where s: "module_step ct ob w (idx, m) = Inr (w1, (idx1, m1))"
    and l: "modules_loop ct ob w1 idx1 ms = Inr (w2, idx2, ms2)" and e: "(w', idx', ms') = (w2, idx2, m1 # ms2)"
    using Cons.prems(1) by (auto simp: sbind_eq_Inr split: prod.splits)
  have "siglist w1 = []" using module_step_post [OF s Cons.prems(2)] by simp
  then show ?case
    using Cons.IH [OF l] module_step_wf [OF s Cons.prems(2)] Cons.prems(3) e by simp
qed

text \<open>A module step without \<open>-undriven\<close> and \<open>-init\<close>: the rewrite,
  then the coalescer in the free modes.\<close>

lemma module_step_plain:
  "\<not> undriven_mode ob \<Longrightarrow> \<not> init_mode ob \<Longrightarrow>
   module_step ct ob w st =
     sbind (rewrite_module w (snd st)) (\<lambda>(w3, m3).
       if free_mode (next_bit_mode w3)
       then Inr (w3\<lparr>siglist := []\<rparr>, coalesce_all (next_bit_mode w3) (siglist w3) (fst st, m3))
       else Inr (w3, (fst st, m3)))"
  by (simp add: module_step_def)

lemma module_step_plain_pair:
  "\<not> undriven_mode ob \<Longrightarrow> \<not> init_mode ob \<Longrightarrow>
   module_step ct ob w (idx, m) =
     sbind (rewrite_module w m) (\<lambda>(w3, m3).
       if free_mode (next_bit_mode w3)
       then Inr (w3\<lparr>siglist := []\<rparr>, coalesce_all (next_bit_mode w3) (siglist w3) (idx, m3))
       else Inr (w3, (idx, m3)))"
  using module_step_plain [of ob ct w "(idx, m)"] unfolding fst_conv snd_conv .

subsection \<open>Lemmas: an example run\<close>

lemma ex_options:
  "setundef_options ex_args ex_w0 =
     Inr \<lparr>got_value = True, undriven_mode = True, init_mode = False,
          worker = \<lparr>next_bit_mode = MODE_ZERO, next_bit_state = 0, siglist = []\<rparr>\<rparr>"
  unfolding ex_args_def ex_w0_def by code_simp

lemma ex_execute:
  "setundef_execute ex_ct ex_args ex_w0 0 [ex_undriven] =
     Inr (0, [ex_undriven\<lparr>mod_conns := [(map (BWire (pub_id ''c'')) [0, 1, 2], replicate 3 (BConst S0))]\<rparr>])"
  unfolding setundef_execute_def ex_options
  unfolding ex_undriven_def ex_ct_def ex_wire_def by code_simp

subsection \<open>Properties\<close>

text \<open>C1: a successful run of the command returns one module per module
  given, each satisfying the pass post-condition for the mode set by the
  options.\<close>

theorem execute_post:
  assumes "setundef_execute ct args w0 idx ms = Inr (idx', ms')"
  shows "\<exists>ob. setundef_options args w0 = Inr ob \<and> length ms' = length ms
           \<and> (\<forall>i<length ms. pass_post (next_bit_mode (worker ob)) (ms ! i) (ms' ! i))"
proof -
  obtain ob w' where o: "setundef_options args w0 = Inr ob"
    and l: "modules_loop ct ob (worker ob) idx ms = Inr (w', idx', ms')"
    using assms by (auto simp: setundef_execute_def sbind_eq_Inr split: prod.splits)
  have "siglist (worker ob) = []" using setundef_options_wk_ok [OF o] by simp
  then show ?thesis using modules_loop_post [OF l] o by blast
qed

theorem execute_post_witness:
  "setundef_execute ex_ct ex_args ex_w0 0 [ex_undriven] =
     Inr (0, [ex_undriven\<lparr>mod_conns := [(map (BWire (pub_id ''c'')) [0, 1, 2], replicate 3 (BConst S0))]\<rparr>])
   \<and> pass_post MODE_ZERO ex_undriven
       (ex_undriven\<lparr>mod_conns := [(map (BWire (pub_id ''c'')) [0, 1, 2], replicate 3 (BConst S0))]\<rparr>)"
  using execute_post [OF ex_execute] ex_execute ex_options by simp

text \<open>C2: once the options are accepted, the run succeeds exactly when no
  module has a fault, and otherwise fails with the fault of the first module
  that has one.\<close>

theorem execute_result:
  assumes "setundef_options args w0 = Inr ob"
  shows "(case first_fault ob ms of
            None \<Rightarrow> \<exists>idx' ms'. setundef_execute ct args w0 idx ms = Inr (idx', ms')
          | Some e \<Rightarrow> setundef_execute ct args w0 idx ms = Inl e)"
proof -
  have ok: "wk_ok (worker ob)" and g: "init_mode ob \<longrightarrow> \<not> free_mode (next_bit_mode (worker ob))"
    using setundef_options_wk_ok [OF assms] by simp_all
  show ?thesis using modules_loop_fault [OF ok g, where ms = ms and ct = ct and idx = idx] assms
    by (auto simp: setundef_execute_def split: option.splits)
qed

theorem execute_result_witness:
  "(\<exists>idx' ms'. setundef_execute ex_ct ex_args ex_w0 0 [ex_undriven] = Inr (idx', ms'))
   \<and> setundef_execute ex_ct ex_args ex_w0 0 [ex_undriven, ex_undriven\<lparr>mod_procs := [[]]\<rparr>]
       = Inl (FatalError msg_procs)"
proof -
  have f1: "first_fault (projr (setundef_options ex_args ex_w0)) [ex_undriven] = None"
    unfolding ex_options by (simp add: module_fault_def ex_undriven_def)
  have f2: "first_fault (projr (setundef_options ex_args ex_w0)) [ex_undriven, ex_undriven\<lparr>mod_procs := [[]]\<rparr>]
              = Some (FatalError msg_procs)"
    unfolding ex_options by (simp add: module_fault_def ex_undriven_def)
  show ?thesis
    using execute_result [OF ex_options, where ms = "[ex_undriven]" and ct = ex_ct and idx = 0]
      execute_result [OF ex_options, where ms = "[ex_undriven, ex_undriven\<lparr>mod_procs := [[]]\<rparr>]" and ct = ex_ct and idx = 0]
      f1 f2 unfolding ex_options by simp
qed

text \<open>C31: the run keeps every module well formed: when each connection of
  every module given joins specs of equal width, so does each connection of
  every module returned, the ones the \<open>-undriven\<close> block adds included.\<close>

theorem execute_conns_wf:
  assumes "setundef_execute ct args w0 idx ms = Inr (idx', ms')" and "\<forall>m\<in>set ms. conns_wf m"
  shows "\<forall>m'\<in>set ms'. conns_wf m'"
proof -
  obtain ob w' where o: "setundef_options args w0 = Inr ob"
    and l: "modules_loop ct ob (worker ob) idx ms = Inr (w', idx', ms')"
    using assms(1) by (auto simp: setundef_execute_def sbind_eq_Inr split: prod.splits)
  have "siglist (worker ob) = []" using setundef_options_wk_ok [OF o] by simp
  then show ?thesis using modules_loop_wf [OF l _ assms(2)] by simp
qed

theorem execute_conns_wf_witness:
  "conns_wf ex_undriven
   \<and> conns_wf (ex_undriven\<lparr>mod_conns := [(map (BWire (pub_id ''c'')) [0, 1, 2], replicate 3 (BConst S0))]\<rparr>)"
proof -
  have w: "conns_wf ex_undriven" by (simp add: conns_wf_def ex_undriven_def)
  have "\<forall>m'\<in>set [ex_undriven\<lparr>mod_conns := [(map (BWire (pub_id ''c'')) [0, 1, 2], replicate 3 (BConst S0))]\<rparr>].
          conns_wf m'"
    by (rule execute_conns_wf [OF ex_execute]) (simp add: w)
  with w show ?thesis by simp
qed

end
