(* ===== verification/Rerun.thy ===== *)
theory Rerun
  imports Pass
begin

text \<open>
  Running \<open>setundef\<close> again on its own output. Without \<open>-undriven\<close> and
  \<open>-init\<close> a run leaves every signal spec \<^emph>\<open>settled\<close> for its mode: no undefined
  bit in \<open>-zero\<close>, \<open>-one\<close> and \<open>-random\<close>, only \<open>x\<close> as undefined bit in
  \<open>-undef\<close>, and no \<open>x\<close> bit in \<open>-anyseq\<close> and \<open>-anyconst\<close>. On settled modules the
  worker's rewrite (\<open>src/passes/cmds/setundef.cc\<close>, lines 67--77, 301) and the
  coalescer (lines 303--330) change nothing, so a second run of the same
  command returns its input.
\<close>

subsection \<open>Definitions\<close>

definition settled :: "Mode \<Rightarrow> SigSpec \<Rightarrow> bool" where
  "settled md sig \<longleftrightarrow>
     (\<forall>b\<in>set sig. if free_mode md then b \<noteq> BConst Sx
                  else is_undef_bit b \<longrightarrow> md = MODE_UNDEF \<and> b = BConst Sx)"

definition mod_settled :: "Mode \<Rightarrow> Module \<Rightarrow> bool" where
  "mod_settled md m \<longleftrightarrow> (\<forall>l\<in>set (sig_locs m). settled md (sig_at m l))"

text \<open>An example command line: \<open>setundef -undef\<close>.\<close>

definition ex_args_undef :: "string list" where
  "ex_args_undef = [''setundef'', ''-undef'']"

subsection \<open>The rewrite on settled specs\<close>

lemma rewrite_bits_defined:
  "\<forall>b\<in>set sig. \<not> is_undef_bit b \<Longrightarrow> rewrite_bits w sig = Inr (w, sig)"
  by (induction sig) simp_all

lemma rewrite_bits_settled:
  assumes "\<not> free_mode (next_bit_mode w)" and "settled (next_bit_mode w) sig"
  shows "rewrite_bits w sig = Inr (w, sig)"
proof (cases "next_bit_mode w = MODE_UNDEF")
  case True
  then have "next_bit w = Inr (Sx, w)" using next_bit_const_mode [of w] by simp
  then have "rewrite_bits w sig = Inr (w, map (\<lambda>b. if is_undef_bit b then BConst Sx else b) sig)"
    by (rule rewrite_bits_fixed)
  moreover have "map (\<lambda>b. if is_undef_bit b then BConst Sx else b) sig = sig"
    using assms by (intro map_idI) (auto simp: settled_def)
  ultimately show ?thesis by simp
next
  case False
  then show ?thesis using assms by (intro rewrite_bits_defined) (auto simp: settled_def)
qed

lemma rewrite_locs_settled:
  assumes "\<not> free_mode (next_bit_mode w)"
    and "\<forall>l\<in>set ls. loc_valid m l \<and> settled (next_bit_mode w) (sig_at m l)"
  shows "rewrite_locs worker_apply ls w m = Inr (w, m)"
  using assms(2)
proof (induction ls)
  case Nil
  then show ?case by simp
next
  case (Cons l ls)
  have "settled (next_bit_mode w) (sig_at m l)" using Cons.prems by simp
  then have "rewrite_bits w (sig_at m l) = Inr (w, sig_at m l)"
    by (rule rewrite_bits_settled [OF assms(1)])
  then have a: "worker_apply w l (sig_at m l) = Inr (w, sig_at m l)"
    using assms(1) by (simp add: worker_apply_def)
  have "rewrite_locs worker_apply ls w m = Inr (w, m)"
    using Cons.IH Cons.prems by simp
  then show ?case using a by simp
qed

lemma rewrite_module_settled:
  assumes "\<not> free_mode (next_bit_mode w)" and "mod_settled (next_bit_mode w) m"
  shows "rewrite_module w m = Inr (w, m)"
proof -
  have "\<forall>l\<in>set (sig_locs m). loc_valid m l \<and> settled (next_bit_mode w) (sig_at m l)"
    using assms(2) unfolding mod_settled_def by simp
  then show ?thesis unfolding rewrite_module_def rewrite_sigspecs_def
    by (rule rewrite_locs_settled [OF assms(1)])
qed

text \<open>A non-free rewrite leaves the module settled.\<close>

lemma rewrite_bits_settles:
  assumes "rewrite_bits w x = Inr (w1, y)" and "\<not> free_mode (next_bit_mode w)"
  shows "settled (next_bit_mode w) y"
proof (cases "next_bit_mode w = MODE_UNDEF")
  case True
  then have nb: "next_bit w = Inr (Sx, w)" using next_bit_const_mode [of w] by simp
  have "y = map (\<lambda>b. if is_undef_bit b then BConst Sx else b) x"
    using assms(1) rewrite_bits_fixed [OF nb, of x] by simp
  then show ?thesis using True assms(2) by (auto simp: settled_def)
next
  case False
  then show ?thesis using rewrite_bits_post(3) [OF assms(1)] assms(2) by (auto simp: settled_def)
qed

lemma rewrite_module_settles:
  assumes "rewrite_module w m = Inr (w', m')" and "\<not> free_mode (next_bit_mode w)"
  shows "mod_settled (next_bit_mode w) m'"
proof -
  note rf = rewrite_module_frame [OF assms]
  have "settled (next_bit_mode w) (sig_at m' l)" if "loc_valid m l" for l
  proof (rule rewrite_sigspecs_post [where I = "\<lambda>w1. next_bit_mode w1 = next_bit_mode w"
        and Q = "\<lambda>x y. settled (next_bit_mode w) y"])
    show "rewrite_sigspecs worker_apply w m = Inr (w', m')"
      using assms(1) by (simp add: rewrite_module_def)
  next
    fix s l x s1 y
    assume md: "next_bit_mode s = next_bit_mode w" and ap: "worker_apply s l x = Inr (s1, y)"
    then have rb: "rewrite_bits s x = Inr (s1, y)" using assms(2) by (simp add: worker_apply_def)
    show "next_bit_mode s1 = next_bit_mode w \<and> settled (next_bit_mode w) y"
      using rewrite_bits_post(4) [OF rb] rewrite_bits_settles [OF rb] md assms(2) by simp
  qed (use that in simp_all)
  then show ?thesis using rf by (simp add: mod_settled_def)
qed

subsection \<open>The coalescer on specs without \<open>x\<close>\<close>

lemma coalesce_loop_no_x:
  "BConst Sx \<notin> set sig \<Longrightarrow> coalesce_loop md cursor sig st = (sig, st)"
proof (induction md cursor sig st rule: coalesce_loop.induct)
  case (1 md cursor sig st)
  show ?case
  proof (cases "cursor < length sig")
    case True
    have "sig ! cursor \<noteq> BConst Sx" using True "1.prems" nth_mem by metis
    then have "x_width sig cursor 0 = 0" by (subst x_width.simps) simp
    then show ?thesis using "1.IH"(2) [OF True refl] "1.prems" True
      by (subst coalesce_loop.simps) simp
  next
    case False
    then show ?thesis by (subst coalesce_loop.simps) simp
  qed
qed

lemma coalesce_all_no_x:
  "\<forall>l\<in>set ls. BConst Sx \<notin> set (sig_at m l) \<Longrightarrow> coalesce_all md ls (idx, m) = (idx, m)"
  by (induction ls) (simp_all add: coalesce_all_def coalesce_sig_def coalesce_loop_no_x)

subsection \<open>A module step on a settled module\<close>

lemma worker_siglist_nil: "siglist w = [] \<Longrightarrow> w\<lparr>siglist := []\<rparr> = w"
  by (cases w) simp

lemma module_step_rerun:
  assumes "\<not> undriven_mode ob" and "\<not> init_mode ob" and "siglist w = []"
    and "mod_settled (next_bit_mode w) m"
  shows "module_step ct ob w (idx, m) = Inr (w, (idx, m))"
proof (cases "free_mode (next_bit_mode w)")
  case True
  have "\<forall>l\<in>set (sig_locs m). BConst Sx \<notin> set (sig_at m l)"
    using assms(4) True by (auto simp: mod_settled_def settled_def)
  then show ?thesis using True assms
    by (simp add: module_step_plain_pair rewrite_module_free_mode coalesce_all_no_x worker_siglist_nil)
next
  case False
  then show ?thesis using assms by (simp add: module_step_plain_pair rewrite_module_settled)
qed

lemma module_step_settles:
  assumes "module_step ct ob w (idx, m) = Inr (w', (idx', m'))"
    and "\<not> undriven_mode ob" and "\<not> init_mode ob" and "siglist w = []"
  shows "mod_settled (next_bit_mode w) m'"
proof (cases "free_mode (next_bit_mode w)")
  case True
  have "pass_post (next_bit_mode w) m m'" using module_step_post [OF assms(1,4)] by simp
  then show ?thesis using True by (auto simp: pass_post_def mod_settled_def settled_def)
next
  case False
  obtain w3 m3 where rw: "rewrite_module w m = Inr (w3, m3)"
    and r: "(if free_mode (next_bit_mode w3)
       then Inr (w3\<lparr>siglist := []\<rparr>, coalesce_all (next_bit_mode w3) (siglist w3) (idx, m3))
       else Inr (w3, (idx, m3))) = (Inr (w', (idx', m')) :: Fault + _)"
    using assms(1) unfolding module_step_plain_pair [OF assms(2,3)] by (elim sbind_Inr_pairE) simp
  have "next_bit_mode w3 = next_bit_mode w" using rewrite_module_frame [OF rw False] by simp
  then have "m' = m3" using r False by simp
  then show ?thesis using rewrite_module_settles [OF rw False] by simp
qed

subsection \<open>The module loop\<close>

lemma modules_loop_settles:
  assumes "modules_loop ct ob w idx ms = Inr (w', idx', ms')"
    and "\<not> undriven_mode ob" and "\<not> init_mode ob" and "siglist w = []"
  shows "\<forall>m'\<in>set ms'. mod_settled (next_bit_mode w) m'"
  using assms(1,4)
proof (induction ms arbitrary: w idx w' idx' ms')
  case Nil
  then show ?case by simp
next
  case (Cons m ms)
  obtain w1 idx1 m1 w2 idx2 ms2 where s: "module_step ct ob w (idx, m) = Inr (w1, (idx1, m1))"
    and l: "modules_loop ct ob w1 idx1 ms = Inr (w2, idx2, ms2)" and e: "(w', idx', ms') = (w2, idx2, m1 # ms2)"
    using Cons.prems(1) by (auto simp: sbind_eq_Inr split: prod.splits)
  have p: "next_bit_mode w1 = next_bit_mode w \<and> siglist w1 = []"
    using module_step_post [OF s Cons.prems(2)] by simp
  then show ?case
    using Cons.IH [OF l] module_step_settles [OF s assms(2,3) Cons.prems(2)] e by simp
qed

lemma modules_loop_rerun:
  assumes "\<not> undriven_mode ob" and "\<not> init_mode ob" and "siglist w = []"
    and "\<forall>m\<in>set ms. mod_settled (next_bit_mode w) m"
  shows "modules_loop ct ob w idx ms = Inr (w, idx, ms)"
  using assms(4) by (induction ms) (simp_all add: module_step_rerun [OF assms(1-3)])

subsection \<open>Properties\<close>

text \<open>C32: without \<open>-undriven\<close> and \<open>-init\<close>, running the same command again
  on the modules a run returned changes nothing: it succeeds with the same
  modules and the same name counter, in every mode.\<close>

theorem execute_idempotent:
  assumes "setundef_execute ct args w0 idx ms = Inr (idx', ms')"
    and "setundef_options args w0 = Inr ob" and "\<not> undriven_mode ob" and "\<not> init_mode ob"
  shows "setundef_execute ct args w0 idx' ms' = Inr (idx', ms')"
proof -
  obtain w' where l: "modules_loop ct ob (worker ob) idx ms = Inr (w', idx', ms')"
    using assms(1,2) by (auto simp: setundef_execute_def sbind_eq_Inr split: prod.splits)
  have sl: "siglist (worker ob) = []" using setundef_options_wk_ok [OF assms(2)] by simp
  have "\<forall>m\<in>set ms'. mod_settled (next_bit_mode (worker ob)) m"
    by (rule modules_loop_settles [OF l assms(3,4) sl])
  then have "modules_loop ct ob (worker ob) idx' ms' = Inr (worker ob, idx', ms')"
    by (rule modules_loop_rerun [OF assms(3,4) sl])
  then show ?thesis using assms(2) by (simp add: setundef_execute_def)
qed

theorem execute_idempotent_witness:
  "setundef_execute ex_ct ex_args_undef ex_w0 0 [ex_module] =
     Inr (0, [ex_module\<lparr>mod_conns := [([BWire ''b'' 0], [BConst Sx])]\<rparr>])
   \<and> setundef_execute ex_ct ex_args_undef ex_w0 0 [ex_module\<lparr>mod_conns := [([BWire ''b'' 0], [BConst Sx])]\<rparr>] =
     Inr (0, [ex_module\<lparr>mod_conns := [([BWire ''b'' 0], [BConst Sx])]\<rparr>])"
proof -
  have o: "setundef_options ex_args_undef ex_w0 =
     Inr \<lparr>got_value = True, undriven_mode = False, init_mode = False,
          worker = \<lparr>next_bit_mode = MODE_UNDEF, next_bit_state = 0, siglist = []\<rparr>\<rparr>"
    unfolding ex_args_undef_def ex_w0_def by code_simp
  have r: "setundef_execute ex_ct ex_args_undef ex_w0 0 [ex_module] =
     Inr (0, [ex_module\<lparr>mod_conns := [([BWire ''b'' 0], [BConst Sx])]\<rparr>])"
    unfolding setundef_execute_def o unfolding ex_module_def ex_ct_def by code_simp
  show ?thesis using execute_idempotent [OF r o] r by simp
qed

end
