(* ===== verification/RandomRun.thy ===== *)
theory RandomRun
  imports Pass
begin

text \<open>
  The random generator across a whole run of \<open>setundef -random\<close>. One
  \<open>SetundefWorker\<close> serves every module (\<open>src/passes/cmds/setundef.cc\<close>,
  line 184), and \<open>rewrite_sigspecs\<close> hands it the signal specs one after the
  other (line 301). So the xorshift32 state advances once per undefined bit,
  over all signal specs of all modules, in order, and is never reset between
  modules.
\<close>

subsection \<open>Definitions\<close>

text \<open>The number of undefined bits over all signal specs of a module.\<close>

definition undef_count :: "Module \<Rightarrow> nat" where
  "undef_count m = sum_list (map (\<lambda>l. count_undef (sig_at m l)) (sig_locs m))"

text \<open>Example options and worker: \<open>-random\<close> with state 1.\<close>

definition ex_random :: Worker where
  "ex_random = \<lparr>next_bit_mode = MODE_RANDOM, next_bit_state = 1, siglist = []\<rparr>"

definition ex_random_opts :: Opts where
  "ex_random_opts = \<lparr>got_value = True, undriven_mode = False, init_mode = False, worker = ex_random\<rparr>"

subsection \<open>Lemmas\<close>

lemma rewrite_bits_random_state:
  assumes "rewrite_bits w x = Inr (w1, y)" and "next_bit_mode w = MODE_RANDOM" and "next_bit_state w \<noteq> 0"
  shows "w1 = w\<lparr>next_bit_state := (xorshift32 ^^ count_undef x) (next_bit_state w)\<rparr>"
proof -
  obtain vs where "next_bits (count_undef x) w = Inr (vs, w1)"
    using assms(1) by (rule rewrite_bits_Inr)
  then show ?thesis using next_bits_random [OF assms(2,3)] by simp
qed

lemma xorshift32_funpow_nonzero: "s \<noteq> 0 \<Longrightarrow> (xorshift32 ^^ n) s \<noteq> 0"
  by (induction n) (simp_all add: xorshift32_nonzero)

lemma funpow_apply_add: "(f ^^ a) ((f ^^ b) s) = (f ^^ (a + b)) s"
  by (simp add: funpow_add)

lemma sum_list_put_other:
  assumes "l \<notin> set ls" and "loc_valid m l" and "\<forall>l'\<in>set ls. loc_valid m l'"
  shows "sum_list (map (\<lambda>l'. count_undef (sig_at (sig_put m l y) l')) ls)
       = sum_list (map (\<lambda>l'. count_undef (sig_at m l')) ls)"
proof -
  have "map (\<lambda>l'. count_undef (sig_at (sig_put m l y) l')) ls = map (\<lambda>l'. count_undef (sig_at m l')) ls"
    by (rule map_cong [OF refl]) (use assms in \<open>auto simp: sig_at_put\<close>)
  then show ?thesis by (rule arg_cong)
qed

lemma rewrite_locs_random_state:
  assumes "rewrite_locs worker_apply ls w m = Inr (w', m')"
    and "next_bit_mode w = MODE_RANDOM" and "next_bit_state w \<noteq> 0"
    and "distinct ls" and "\<forall>l\<in>set ls. loc_valid m l"
  shows "w' = w\<lparr>next_bit_state :=
            (xorshift32 ^^ sum_list (map (\<lambda>l. count_undef (sig_at m l)) ls)) (next_bit_state w)\<rparr>"
  using assms
proof (induction ls arbitrary: w m)
  case Nil
  then show ?case by (cases w) simp
next
  case (Cons l ls)
  obtain w1 y where a: "worker_apply w l (sig_at m l) = Inr (w1, y)"
    and r: "rewrite_locs worker_apply ls w1 (sig_put m l y) = Inr (w', m')"
    using Cons.prems(1) by (auto simp: sbind_eq_Inr split: prod.splits)
  have rb: "rewrite_bits w (sig_at m l) = Inr (w1, y)"
    using a Cons.prems(2) by (simp add: worker_apply_def free_mode_def)
  have w1: "w1 = w\<lparr>next_bit_state := (xorshift32 ^^ count_undef (sig_at m l)) (next_bit_state w)\<rparr>"
    by (rule rewrite_bits_random_state [OF rb Cons.prems(2,3)])
  have IH: "w' = w1\<lparr>next_bit_state :=
      (xorshift32 ^^ sum_list (map (\<lambda>l'. count_undef (sig_at (sig_put m l y) l')) ls)) (next_bit_state w1)\<rparr>"
    using Cons.IH [OF r] w1 Cons.prems(2-5) by (simp add: xorshift32_funpow_nonzero)
  have s: "sum_list (map (\<lambda>l'. count_undef (sig_at (sig_put m l y) l')) ls)
       = sum_list (map (\<lambda>l'. count_undef (sig_at m l')) ls)"
    using Cons.prems(4,5) by (intro sum_list_put_other) simp_all
  show ?case using IH w1 s by (simp add: funpow_apply_add add.commute)
qed

lemma rewrite_module_random_state:
  assumes "rewrite_module w m = Inr (w', m')"
    and "next_bit_mode w = MODE_RANDOM" and "next_bit_state w \<noteq> 0"
  shows "w' = w\<lparr>next_bit_state := (xorshift32 ^^ undef_count m) (next_bit_state w)\<rparr>"
  using rewrite_locs_random_state [OF _ assms(2,3) distinct_sig_locs] assms(1)
  by (simp add: rewrite_module_def rewrite_sigspecs_def undef_count_def)

lemma module_step_random_state:
  assumes "module_step ct ob w (idx, m) = Inr (w', (idx', m'))"
    and "\<not> undriven_mode ob" and "\<not> init_mode ob"
    and "next_bit_mode w = MODE_RANDOM" and "next_bit_state w \<noteq> 0"
  shows "w' = w\<lparr>next_bit_state := (xorshift32 ^^ undef_count m) (next_bit_state w)\<rparr>"
proof -
  obtain w3 m3 where rw: "rewrite_module w m = Inr (w3, m3)"
    and r: "(if free_mode (next_bit_mode w3)
       then Inr (w3\<lparr>siglist := []\<rparr>, coalesce_all (next_bit_mode w3) (siglist w3) (idx, m3))
       else Inr (w3, (idx, m3))) = (Inr (w', (idx', m')) :: Fault + _)"
    using assms(1) unfolding module_step_plain_pair [OF assms(2,3)] by (elim sbind_Inr_pairE) simp
  note st = rewrite_module_random_state [OF rw assms(4,5)]
  then have "\<not> free_mode (next_bit_mode w3)" using assms(4) by (simp add: free_mode_def)
  then show ?thesis using r st by simp
qed

subsection \<open>Properties\<close>

text \<open>C33: in \<open>-random\<close> mode (without \<open>-undriven\<close> and \<open>-init\<close>) the one
  generator is shared by all modules: after the module loop its state has
  advanced once per undefined bit of all the modules together, and it is not
  reset between modules.\<close>

theorem modules_loop_random_state:
  assumes "modules_loop ct ob w idx ms = Inr (w', idx', ms')"
    and "\<not> undriven_mode ob" and "\<not> init_mode ob"
    and "next_bit_mode w = MODE_RANDOM" and "next_bit_state w \<noteq> 0"
  shows "w' = w\<lparr>next_bit_state := (xorshift32 ^^ sum_list (map undef_count ms)) (next_bit_state w)\<rparr>"
  using assms(1,4,5)
proof (induction ms arbitrary: w idx w' idx' ms')
  case Nil
  then show ?case by (cases w) simp
next
  case (Cons m ms)
  obtain w1 idx1 m1 w2 idx2 ms2 where s: "module_step ct ob w (idx, m) = Inr (w1, (idx1, m1))"
    and l: "modules_loop ct ob w1 idx1 ms = Inr (w2, idx2, ms2)" and e: "(w', idx', ms') = (w2, idx2, m1 # ms2)"
    using Cons.prems(1) by (auto simp: sbind_eq_Inr split: prod.splits)
  have w1: "w1 = w\<lparr>next_bit_state := (xorshift32 ^^ undef_count m) (next_bit_state w)\<rparr>"
    by (rule module_step_random_state [OF s assms(2,3) Cons.prems(2,3)])
  have "w2 = w1\<lparr>next_bit_state := (xorshift32 ^^ sum_list (map undef_count ms)) (next_bit_state w1)\<rparr>"
    using Cons.IH [OF l] w1 Cons.prems(2,3) by (simp add: xorshift32_funpow_nonzero)
  then show ?case using w1 e by (simp add: funpow_apply_add add.commute)
qed

theorem modules_loop_random_state_witness:
  "\<exists>w' idx' ms'. modules_loop ex_ct ex_random_opts ex_random 0 [ex_module, ex_module] = Inr (w', idx', ms')
     \<and> next_bit_state w' = (xorshift32 ^^ 4) 1"
proof -
  have ok: "wk_ok ex_random" by (simp add: wk_ok_def gen_ok_def ex_random_def)
  have g: "init_mode ex_random_opts \<longrightarrow> \<not> free_mode (next_bit_mode ex_random)"
    by (simp add: ex_random_opts_def)
  have "first_fault ex_random_opts [ex_module, ex_module] = None"
    by (simp add: module_fault_def ex_random_opts_def)
  then obtain w' idx' ms' where r: "modules_loop ex_ct ex_random_opts ex_random 0 [ex_module, ex_module] = Inr (w', idx', ms')"
    using modules_loop_fault [OF ok g, where ms = "[ex_module, ex_module]" and ct = ex_ct and idx = 0] by auto
  have c: "undef_count ex_module = 2" unfolding undef_count_def ex_module_def by code_simp
  have "w' = ex_random\<lparr>next_bit_state := (xorshift32 ^^ sum_list (map undef_count [ex_module, ex_module]))
                                          (next_bit_state ex_random)\<rparr>"
    by (rule modules_loop_random_state [OF r]) (simp_all add: ex_random_opts_def ex_random_def)
  then show ?thesis using r c by (auto simp: ex_random_def)
qed

end
