(* ===== verification/CoalesceWhile.thy ===== *)
theory CoalesceWhile
  imports Coalesce "HOL-Library.While_Combinator"
begin

text \<open>
  The coalescer's cursor loop in the shape the source gives it
  (\<open>src/passes/cmds/setundef.cc\<close>, lines 311--328): a state of the cursor,
  the signal spec and the module, a body, and the guard
  \<open>cursor < GetSize(sig)\<close>, run by \<open>while_option\<close>. The signal spec is
  replaced inside the loop, so the guard reads a spec that changes; the
  theorem shows that the loop stops with the cursor at the end of the spec,
  whose width it keeps.
\<close>

subsection \<open>Definitions\<close>

type_synonym cstate = "nat \<times> SigSpec \<times> mstate"

text \<open>One iteration, lines 315--327: measure the run of \<open>x\<close> bits at the
  cursor; splice a new source over a non-empty run and jump past it, or step
  over one bit.\<close>

definition coalesce_body :: "Mode \<Rightarrow> cstate \<Rightarrow> cstate" where
  "coalesce_body md s =
     (case s of (cursor, sig, st) \<Rightarrow>
        (let width = x_width sig cursor 0 in
         if 0 < width then
           (let r = add_free_source (source_type md) (source_site md) width st
            in (cursor + width, sig_replace cursor sig (fst r), snd r))
         else (Suc cursor, sig, st)))"

definition coalesce_guard :: "cstate \<Rightarrow> bool" where
  "coalesce_guard s = (case s of (cursor, sig, _) \<Rightarrow> cursor < length sig)"

text \<open>Lines 311--313: \<open>int cursor = 0; while (cursor < GetSize(sig)) ...\<close>.\<close>

definition coalesce_while :: "Mode \<Rightarrow> SigSpec \<Rightarrow> mstate \<Rightarrow> cstate option" where
  "coalesce_while md sig st = while_option coalesce_guard (coalesce_body md) (0, sig, st)"

subsection \<open>Lemmas\<close>

lemma coalesce_body_length:
  assumes "cursor < length sig"
  shows "length (fst (snd (coalesce_body md (cursor, sig, st)))) = length sig
       \<and> cursor < fst (coalesce_body md (cursor, sig, st))
       \<and> fst (coalesce_body md (cursor, sig, st)) \<le> length sig"
proof -
  have b: "cursor + x_width sig cursor 0 \<le> length sig" using assms by (simp add: x_width_bound)
  show ?thesis
    using b assms by (simp add: coalesce_body_def Let_def add_free_source_def free_wire_def)
qed

text \<open>The invariant of the loop: the spec keeps its width \<open>n\<close> and the
  cursor stays within it.\<close>

lemma coalesce_body_inv:
  assumes "(case s of (cursor, sig, _) \<Rightarrow> cursor \<le> n \<and> length sig = n)" and "coalesce_guard s"
  shows "(case coalesce_body md s of (cursor, sig, _) \<Rightarrow> cursor \<le> n \<and> length sig = n)
       \<and> (case coalesce_body md s of (cursor, sig, _) \<Rightarrow> length sig - cursor)
           < (case s of (cursor, sig, _) \<Rightarrow> length sig - cursor)"
proof -
  obtain cursor sig st where s: "s = (cursor, sig, st)" by (metis prod.exhaust)
  have c: "cursor < length sig" using assms(2) by (simp add: s coalesce_guard_def)
  obtain c' s' st' where b: "coalesce_body md (cursor, sig, st) = (c', s', st')" by (metis prod.exhaust)
  have "length s' = length sig \<and> cursor < c' \<and> c' \<le> length sig"
    using coalesce_body_length [OF c, of md st] b by simp
  then show ?thesis using assms(1) b s by auto
qed

subsection \<open>Properties\<close>

text \<open>C30: the cursor loop always stops, although the spec it tests is
  replaced inside it: it ends with the cursor exactly at the end of the spec,
  whose width is unchanged.\<close>

theorem coalesce_while_terminates:
  "\<exists>sig' st'. coalesce_while md sig st = Some (length sig, sig', st') \<and> length sig' = length sig"
proof -
  let ?P = "\<lambda>s. case s of (cursor, sig', _) \<Rightarrow> cursor \<le> length sig \<and> length sig' = length sig"
  have "\<exists>t. while_option coalesce_guard (coalesce_body md) (0, sig, st) = Some t"
    by (rule measure_while_option_Some [where P = ?P and f = "\<lambda>(cursor, sig', _). length sig' - cursor"])
       (use coalesce_body_inv in auto)
  then obtain t where r: "while_option coalesce_guard (coalesce_body md) (0, sig, st) = Some t" by blast
  have "?P t" by (rule while_option_rule [OF _ r]) (use coalesce_body_inv in auto)
  moreover have "\<not> coalesce_guard t" by (rule while_option_stop [OF r])
  ultimately show ?thesis using r by (auto simp: coalesce_while_def coalesce_guard_def split: prod.splits)
qed

end
