(* ===== verification/Spec2Isabelle.thy ===== *)
theory Spec2Isabelle
  imports Rerun RandomRun CoalesceWhile
begin

text \<open>
  \<^bold>\<open>Verification of the \<open>setundef\<close> pass of Yosys\<close>
  (\<open>src/passes/cmds/setundef.cc\<close>, the only source file of the repository).

  \<^bold>\<open>The program.\<close> \<open>setundef\<close> replaces undefined constant bits in every
  selected module. \<open>SetundefPass::execute\<close> parses the options into a
  \<open>SetundefWorker\<close> (a mode, a 32-bit random state and a list of recorded
  signal specs). Then, per module, it runs: the \<open>-undriven\<close> block, which
  drives every wire bit that nothing drives; the \<open>-init\<close> block, which
  back-fills the \<open>init\<close> attribute of flip-flop output wires;
  \<open>module->rewrite_sigspecs(worker)\<close>, which hands every signal spec to the
  worker's \<open>operator()\<close>; and, in the free modes \<open>-anyseq\<close> and
  \<open>-anyconst\<close>, a coalescer that turns each run of \<open>x\<close> bits recorded by the
  worker into one new \<open>$anyseq\<close> or \<open>$anyconst\<close> cell. One worker and one
  fresh-name counter are shared by all modules.

  \<^bold>\<open>Theories and what they model.\<close> Errors are values of the sum type
  \<open>Fault + 'a\<close> (\<open>Inl\<close> is the error), threaded with \<open>sbind\<close>. Each
  \<open>log_cmd_error\<close>, \<open>log_error\<close>, \<open>log_assert\<close>, \<open>log_abort\<close> and the
  \<open>std::out_of_range\<close> of \<open>getPort\<close> is a \<open>Fault\<close> constructor.
  \<^item> \<open>Prelude\<close>: the result type, \<open>sbind\<close>, the repetition combinator, the
    32-bit word type, and the list, fold and word lemmas the components share.
  \<^item> \<open>RTLIL\<close>: the kernel subset the pass touches. This covers states, signal
    bits and specs, wires, cells, modules, \<open>autoidx\<close> and \<open>NEW_ID\<close>,
    \<open>connect\<close>, \<open>Anyseq\<close>/\<open>Anyconst\<close>, \<open>SigSpec::replace\<close>, and the traversal
    \<open>rewrite_sigspecs\<close>, which works over the module's signal spec
    locations \<open>sig_locs\<close>. The kernel is not under \<open>src/\<close>, so these
    definitions follow its documented contract.
  \<^item> \<open>BitGen\<close>: \<open>SetundefWorker::next_bit\<close> (lines 42--65). Every mode is
    covered, with the xorshift32 update on a \<open>32 word\<close>.
  \<^item> \<open>Rewriter\<close>: \<open>operator()\<close> (lines 67--77) as \<open>rewrite_bits\<close> and
    \<open>worker_apply\<close>, and line 301 as \<open>rewrite_module\<close>.
  \<^item> \<open>Coalesce\<close>: the cursor loop (lines 303--330) as \<open>coalesce_loop\<close>,
    \<open>coalesce_sig\<close> and \<open>coalesce_all\<close>, with its reference
    \<open>apply_runs\<close> over the runs \<open>x_runs\<close> of \<open>x\<close> bits.
  \<^item> \<open>CoalesceWhile\<close>: the same cursor loop in the source's own shape, as
    \<open>while_option\<close> over the state (cursor, spec, module) with the guard
    \<open>coalesce_guard\<close> and the body \<open>coalesce_body\<close>.
  \<^item> \<open>Options\<close>: the option loop and the checks (lines 116--182) as
    \<open>parse_args\<close>, \<open>random_init\<close> and \<open>setundef_options\<close>, with \<open>atoi\<close>
    on unbounded integers.
  \<^item> \<open>Undriven\<close>: lines 186--219. It models \<open>SigMap\<close> as a representative
    function, \<open>SigPool\<close> as an insertion-ordered list, \<open>CellTypes\<close> as a
    table, and \<open>chunks\<close>. The definitions are \<open>undriven_bits\<close>,
    \<open>drive_chunks\<close> and \<open>undriven_step\<close>.
  \<^item> \<open>InitMerge\<close>: lines 221--299. The definitions are \<open>fftypes\<close>,
    \<open>collect_ffbits\<close>, the two wire scans \<open>scan_init_attr\<close> and
    \<open>scan_ff_wires\<close>, the fill loop \<open>fill_init\<close>/\<open>fill_wires\<close>, and
    \<open>init_step\<close>.
  \<^item> \<open>Pass\<close>: the per-module body (lines 186--330) as \<open>module_step\<close>,
    the module loop (line 184) as \<open>modules_loop\<close>, and the whole command as
    \<open>setundef_execute\<close>.
  \<^item> \<open>Rerun\<close>: running the command again on its own output, with the
    predicate \<open>settled\<close> (the signal specs a run leaves in each mode).
  \<^item> \<open>RandomRun\<close>: the random generator across the module loop, with
    \<open>undef_count\<close>, the number of undefined bits of a module.

  \<^bold>\<open>What the lemmas show.\<close>
  \<^item> The generator produces the xorshift32 stream and keeps a non-zero
    state non-zero (\<open>gen_ok\<close>).
  \<^item> The rewriter keeps widths and defined bits, leaves no undefined
    constant in the constant modes, and records every location in the free
    modes.
  \<^item> The coalescer refines the reference and leaves no \<open>x\<close> bit. Its
    \<open>while\<close> loop always stops, with the cursor at the end of the spec,
    although the spec it tests is replaced inside the loop.
  \<^item> The options: \<open>-init\<close> with a last free value option is rejected, a
    missing value option is rejected, the last value option wins,
    \<open>-random\<close> after a value option fails in \<open>extra_args\<close>, and seeding
    fails with the assertion exactly when \<open>atoi(seed) + 1\<close> is 0 as a 32-bit
    word.
  \<^item> The undriven block drives exactly the undriven bits, chunk by chunk.
  \<^item> The init block fills every claimed wire's \<open>x\<close> and missing bits. It
    claims only wires with an \<open>init\<close> attribute, or wires whose bits are all
    flip-flop outputs that no \<open>init\<close> attribute covers.
  \<^item> For the whole command, a successful run returns each module
    satisfying \<open>pass_post\<close>. This is shown by composing the frame lemmas of
    every phase.
  \<^item> For the whole command, a run keeps every module well formed
    (\<open>conns_wf\<close>: each connection joins specs of equal width, as
    \<open>Module::connect\<close> asserts).
  \<^item> For the whole command without \<open>-undriven\<close> and \<open>-init\<close>, a second
    run on the output changes nothing, in every mode. In \<open>-undef\<close>, \<open>x\<close>
    is rewritten to \<open>x\<close>. In the free modes no \<open>x\<close> is left for the
    coalescer.
  \<^item> In \<open>-random\<close> mode one generator is shared by all modules. Its state
    advances once per undefined bit of all modules together and is not reset
    between modules.
  \<^item> For the whole command, once the options are accepted it succeeds
    exactly when no module has a fault (\<open>first_fault\<close>), and otherwise
    fails with the first fault.

  \<^bold>\<open>Loops and termination.\<close> Every loop of the code is a structural
  \<open>fun\<close> over a list, or a \<open>function\<close> with a measure: the option loop on
  \<open>length args - argidx\<close>, and the coalescer's cursor on the remaining
  width. The source's \<open>while\<close> loop of the coalescer is also given as
  \<open>while_option\<close>, and a theorem shows it returns. No fuel is used, and every definition is total and executable. The
  examples are evaluated by \<open>simp\<close> and \<open>code_simp\<close>, a full run of the command
  on a small module included.

  \<^bold>\<open>Abstractions.\<close>
  \<^item> The iteration order of \<open>hashlib\<close> containers (the wires and cells of a
    module, \<open>SigPool\<close>, \<open>pool<SigBit>\<close>, \<open>pool<Wire*>\<close>) is taken as
    insertion order. The theorems about which bits and wires are chosen
    are stated on sets and do not depend on this order. The theorems that
    name the order of the chunks or of the filled wires hold for insertion
    order.
  \<^item> A signal spec is a list of bits.
  \<^item> Processes are a list whose contents the pass never reads.
  \<^item> \<open>atoi\<close> is read on unbounded integers and truncated to 32 bits at the
    assignment.

  \<^bold>\<open>Not modelled.\<close>
  \<^item> \<open>help()\<close>, \<open>log_header\<close>, the log output and the pass registration:
    pure I/O with no effect on the design.
  \<^item> The selection arguments after the options: \<open>extra_args\<close> is modelled
    only as far as it rejects a leftover option, and the selected modules
    are given as a list.
\<close>

end
